theory Spec2Isabelle
  imports Complex_Main "HOL-Library.Signed_Division"
begin

section \<open>The polyalphabetic cipher solver \<^verbatim>\<open>quagmire.c\<close>: embedding\<close>

text \<open>
  Symbols are C \<^verbatim>\<open>int\<close>s, modelled as \<^typ>\<open>int\<close>; every value that occurs below
  stays far inside the 32-bit range.  An array is a list.  The keyword arrays are declared
  \<^verbatim>\<open>int [ALPHABET_SIZE]\<close> with \<^verbatim>\<open>ALPHABET_SIZE = 26\<close>; the text arrays
  carry their length (\<^verbatim>\<open>cipher_len\<close>, \<^verbatim>\<open>cycleword_len\<close>, \<^verbatim>\<open>n_cribs\<close>) as the
  length of the list.  What is undefined behaviour in C is a value of type \<open>fault\<close>.
  \<^verbatim>\<open>double\<close> and \<^verbatim>\<open>float\<close> values are real numbers and their arithmetic is exact;
  a division of doubles by zero, whose result is an infinity or a NaN and no real number,
  is the fault \<open>NonFinite\<close>.
\<close>

subsection \<open>Faults and C arithmetic\<close>

datatype fault = DivideByZero | UnsetVariable | OutOfBounds | NonFinite

text \<open>
  \<^verbatim>\<open>indx = v % ALPHABET_SIZE; if (indx < 0) indx += ALPHABET_SIZE;\<close> with the
  truncating remainder of C, which is \<open>smod\<close>.
\<close>

definition wrap_index :: "int \<Rightarrow> int" where
  "wrap_index v = (let indx = v smod 26 in if indx < 0 then indx + 26 else indx)"

text \<open>The Atbash step \<^verbatim>\<open>ALPHABET_SIZE - x - 1\<close>, taken when the Beaufort flag is set.\<close>

definition atbash_if :: "bool \<Rightarrow> int \<Rightarrow> int" where
  "atbash_if beaufort x = (if beaufort then 26 - x - 1 else x)"

text \<open>\<^verbatim>\<open>straight_alphabet\<close>: \<^verbatim>\<open>keyword[i] = i\<close> for \<^verbatim>\<open>i < len\<close>.\<close>

definition straight_alphabet :: "nat \<Rightarrow> int list" where
  "straight_alphabet len = map int [0..<len]"

subsection \<open>The cipher transform\<close>

text \<open>
  The linear search \<^verbatim>\<open>for (j = 0; j < ALPHABET_SIZE; j++) if (x == kw[j]) { posn = j; break; }\<close>,
  started at \<open>j\<close>.  \<open>None\<close> is the fall-through: no entry matched and the position
  variable was not assigned.
\<close>

function find_from :: "int list \<Rightarrow> int \<Rightarrow> nat \<Rightarrow> nat option" where
  "find_from kw x j =
     (if j < 26 then (if kw ! j = x then Some j else find_from kw x (Suc j)) else None)"
  by pat_completeness auto
termination
  by (relation "measure (\<lambda>(kw, x, j). 26 - j)") auto

declare find_from.simps [simp del]

text \<open>
  The position variables \<^verbatim>\<open>posn_keyword\<close> and \<^verbatim>\<open>posn_cycleword\<close> are declared
  outside the loop over the text and are not initialised: after a search they hold the
  position found, or else what they held before (\<open>None\<close>: nothing yet).
\<close>

definition assign_posn :: "nat option \<Rightarrow> nat option \<Rightarrow> nat option" where
  "assign_posn found old = (case found of Some j \<Rightarrow> Some j | None \<Rightarrow> old)"

text \<open>
  The body of \<^verbatim>\<open>quagmire_decrypt\<close> for the text from position \<open>i\<close> on.  \<open>P\<close> is
  \<^verbatim>\<open>plaintext_keyword_indices\<close>, \<open>C\<close> is \<^verbatim>\<open>ciphertext_keyword_indices\<close>, \<open>W\<close> is
  \<^verbatim>\<open>cycleword_indices\<close> with \<^verbatim>\<open>cycleword_len = length W\<close>.
\<close>

fun decrypt_from ::
  "int list \<Rightarrow> int list \<Rightarrow> int list \<Rightarrow> bool \<Rightarrow> nat \<Rightarrow> nat option \<Rightarrow> nat option \<Rightarrow>
   int list \<Rightarrow> fault + int list" where
  "decrypt_from P C W beaufort i posn_keyword posn_cycleword [] = Inr []"
| "decrypt_from P C W beaufort i posn_keyword posn_cycleword (x # xs) =
     (if length W = 0 then Inl DivideByZero
      else
        let posn_keyword' = assign_posn (find_from C x 0) posn_keyword;
            cw_indx = atbash_if beaufort (W ! (i mod length W));
            posn_cycleword' = assign_posn (find_from C cw_indx 0) posn_cycleword
        in case (posn_keyword', posn_cycleword') of
             (Some pk, Some pc) \<Rightarrow>
               (let indx = wrap_index (int pk - int pc);
                    d = atbash_if beaufort (P ! nat indx)
                in case decrypt_from P C W beaufort (Suc i) posn_keyword' posn_cycleword' xs of
                     Inl e \<Rightarrow> Inl e
                   | Inr ds \<Rightarrow> Inr (d # ds))
           | _ \<Rightarrow> Inl UnsetVariable)"

definition quagmire_decrypt ::
  "int list \<Rightarrow> int list \<Rightarrow> int list \<Rightarrow> int list \<Rightarrow> bool \<Rightarrow> fault + int list" where
  "quagmire_decrypt cipher_indices P C W beaufort =
     (if length P = 26 \<and> length C = 26
      then decrypt_from P C W beaufort 0 None None cipher_indices
      else Inl OutOfBounds)"

text \<open>The body of \<^verbatim>\<open>quagmire_encrypt\<close>: the text symbol is searched in \<open>P\<close>, the
  cycleword symbol in \<open>C\<close>, the positions are added and the result is read from \<open>C\<close>.\<close>

fun encrypt_from ::
  "int list \<Rightarrow> int list \<Rightarrow> int list \<Rightarrow> bool \<Rightarrow> nat \<Rightarrow> nat option \<Rightarrow> nat option \<Rightarrow>
   int list \<Rightarrow> fault + int list" where
  "encrypt_from P C W beaufort i posn_keyword posn_cycleword [] = Inr []"
| "encrypt_from P C W beaufort i posn_keyword posn_cycleword (x # xs) =
     (if length W = 0 then Inl DivideByZero
      else
        let posn_keyword' = assign_posn (find_from P x 0) posn_keyword;
            cw_indx = atbash_if beaufort (W ! (i mod length W));
            posn_cycleword' = assign_posn (find_from C cw_indx 0) posn_cycleword
        in case (posn_keyword', posn_cycleword') of
             (Some pk, Some pc) \<Rightarrow>
               (let indx = wrap_index (int pk + int pc);
                    e = atbash_if beaufort (C ! nat indx)
                in case encrypt_from P C W beaufort (Suc i) posn_keyword' posn_cycleword' xs of
                     Inl err \<Rightarrow> Inl err
                   | Inr es \<Rightarrow> Inr (e # es))
           | _ \<Rightarrow> Inl UnsetVariable)"

definition quagmire_encrypt ::
  "int list \<Rightarrow> int list \<Rightarrow> int list \<Rightarrow> int list \<Rightarrow> bool \<Rightarrow> fault + int list" where
  "quagmire_encrypt plaintext_indices P C W beaufort =
     (if length P = 26 \<and> length C = 26
      then encrypt_from P C W beaufort 0 None None plaintext_indices
      else Inl OutOfBounds)"

text \<open>Valid key material and texts, as the data model states them.\<close>

definition symbol :: "int \<Rightarrow> bool" where
  "symbol x = (0 \<le> x \<and> x < 26)"

definition keyword_perm :: "int list \<Rightarrow> bool" where
  "keyword_perm K = (length K = 26 \<and> distinct K \<and> list_all symbol K)"

definition valid_cycleword :: "int list \<Rightarrow> bool" where
  "valid_cycleword W = (W \<noteq> [] \<and> list_all symbol W)"

definition valid_text :: "int list \<Rightarrow> bool" where
  "valid_text M = list_all symbol M"

text \<open>The keyed alphabet \<^verbatim>\<open>KRYPTOSABCDEFGHIJLMNQUVWXZ\<close> that the source writes out in its
  \<^verbatim>\<open>KRYPTOS_PT\<close> block; used here as a concrete key.\<close>

definition kryptos_alphabet :: "int list" where
  "kryptos_alphabet =
     [10, 17, 24, 15, 19, 14, 18, 0, 1, 2, 3, 4, 5, 6, 7, 8, 9, 11, 12, 13, 16, 20, 21, 22, 23, 25]"

subsection \<open>Command line of \<^verbatim>\<open>main\<close>\<close>

text \<open>
  The variables of \<^verbatim>\<open>main\<close> that the argument loop assigns, with the initial values of
  their declarations; field \<open>arg_x\<close> is the variable \<^verbatim>\<open>x\<close>.  \<^verbatim>\<open>cycleword_len\<close> and the file names are declared without a
  value (\<open>None\<close>).  \<^verbatim>\<open>double\<close> and \<^verbatim>\<open>float\<close> values are real numbers here.
\<close>

record config =
  arg_cipher_type :: int
  arg_ngram_size :: int
  arg_ciphertext_keyword_len :: int
  arg_plaintext_keyword_len :: int
  arg_ciphertext_max_keyword_len :: int
  arg_min_keyword_len :: int
  arg_plaintext_max_keyword_len :: int
  arg_max_cycleword_len :: int
  arg_n_restarts :: int
  arg_n_hill_climbs :: int
  arg_cycleword_len :: "int option"
  arg_n_sigma_threshold :: real
  arg_ioc_threshold :: real
  arg_backtracking_probability :: real
  arg_keyword_permutation_probability :: real
  arg_slip_probability :: real
  arg_weight_ngram :: real
  arg_weight_crib :: real
  arg_weight_ioc :: real
  arg_weight_entropy :: real
  arg_ciphertext_file :: "string option"
  arg_crib_file :: "string option"
  arg_dictionary_file :: "string option"
  arg_ngram_file :: "string option"
  arg_verbose :: bool
  arg_cipher_present :: bool
  arg_crib_present :: bool
  arg_plaintext_keyword_len_present :: bool
  arg_cycleword_len_present :: bool
  arg_ciphertext_keyword_len_present :: bool
  arg_dictionary_present_p :: bool
  arg_variant :: bool

definition initial_config :: config where
  "initial_config = \<lparr>
     arg_cipher_type = 3, arg_ngram_size = 0, arg_ciphertext_keyword_len = 5, arg_plaintext_keyword_len = 5,
     arg_ciphertext_max_keyword_len = 12, arg_min_keyword_len = 5, arg_plaintext_max_keyword_len = 12,
     arg_max_cycleword_len = 20, arg_n_restarts = 1, arg_n_hill_climbs = 1000, arg_cycleword_len = None,
     arg_n_sigma_threshold = 1, arg_ioc_threshold = 47 / 1000, arg_backtracking_probability = 1 / 100,
     arg_keyword_permutation_probability = 1 / 100, arg_slip_probability = 5 / 10000,
     arg_weight_ngram = 12, arg_weight_crib = 36, arg_weight_ioc = 1, arg_weight_entropy = 1,
     arg_ciphertext_file = None, arg_crib_file = None, arg_dictionary_file = None, arg_ngram_file = None,
     arg_verbose = False, arg_cipher_present = False, arg_crib_present = False,
     arg_plaintext_keyword_len_present = False, arg_cycleword_len_present = False,
     arg_ciphertext_keyword_len_present = False, arg_dictionary_present_p = False, arg_variant = False \<rparr>"

text \<open>
  The branches of the \<^verbatim>\<open>strcmp\<close> chain that read a value with \<^verbatim>\<open>argv[++i]\<close>, in the
  order of the source.  \<open>atoi\<close> and \<open>atof\<close> are the C library's conversions, taken as
  parameters.  \<open>None\<close>: the flag is not one of these.
\<close>

definition set_value ::
  "(string \<Rightarrow> int) \<Rightarrow> (string \<Rightarrow> real) \<Rightarrow> config \<Rightarrow> string \<Rightarrow> string \<Rightarrow> config option" where
  "set_value atoi atof cfg flag v =
    (if flag = ''-type'' then Some (cfg\<lparr>arg_cipher_type := atoi v\<rparr>)
     else if flag = ''-cipher'' then Some (cfg\<lparr>arg_cipher_present := True, arg_ciphertext_file := Some v\<rparr>)
     else if flag = ''-crib'' then Some (cfg\<lparr>arg_crib_present := True, arg_crib_file := Some v\<rparr>)
     else if flag = ''-ngramsize'' then Some (cfg\<lparr>arg_ngram_size := atoi v\<rparr>)
     else if flag = ''-ngramfile'' then Some (cfg\<lparr>arg_ngram_file := Some v\<rparr>)
     else if flag = ''-maxkeywordlen'' then
       Some (cfg\<lparr>arg_plaintext_keyword_len := atoi v, arg_ciphertext_keyword_len := atoi v\<rparr>)
     else if flag = ''-keywordlen'' then
       Some (cfg\<lparr>arg_plaintext_keyword_len_present := True, arg_ciphertext_keyword_len_present := True,
                 arg_plaintext_keyword_len := atoi v, arg_ciphertext_keyword_len := atoi v,
                 arg_plaintext_max_keyword_len := max (arg_plaintext_max_keyword_len cfg) (1 + atoi v),
                 arg_ciphertext_max_keyword_len := max (arg_ciphertext_max_keyword_len cfg) (1 + atoi v),
                 arg_min_keyword_len := atoi v\<rparr>)
     else if flag = ''-plaintextkeywordlen'' then
       Some (cfg\<lparr>arg_plaintext_keyword_len_present := True, arg_plaintext_keyword_len := atoi v,
                 arg_plaintext_max_keyword_len := max (arg_plaintext_max_keyword_len cfg) (1 + atoi v),
                 arg_min_keyword_len := atoi v\<rparr>)
     else if flag = ''-ciphertextkeywordlen'' then
       Some (cfg\<lparr>arg_ciphertext_keyword_len_present := True, arg_ciphertext_keyword_len := atoi v,
                 arg_ciphertext_max_keyword_len := max (arg_ciphertext_max_keyword_len cfg) (1 + atoi v),
                 arg_min_keyword_len := atoi v\<rparr>)
     else if flag = ''-maxcyclewordlen'' then Some (cfg\<lparr>arg_max_cycleword_len := atoi v\<rparr>)
     else if flag = ''-cyclewordlen'' then
       Some (cfg\<lparr>arg_cycleword_len_present := (atoi v \<noteq> 0), arg_cycleword_len := Some (atoi v),
                 arg_max_cycleword_len := max (arg_max_cycleword_len cfg) (1 + atoi v)\<rparr>)
     else if flag = ''-nsigmathreshold'' then Some (cfg\<lparr>arg_n_sigma_threshold := atof v\<rparr>)
     else if flag = ''-nhillclimbs'' then Some (cfg\<lparr>arg_n_hill_climbs := atoi v\<rparr>)
     else if flag = ''-nrestarts'' then Some (cfg\<lparr>arg_n_restarts := atoi v\<rparr>)
     else if flag = ''-backtrackprob'' then Some (cfg\<lparr>arg_backtracking_probability := atof v\<rparr>)
     else if flag = ''-keywordpermprob'' then Some (cfg\<lparr>arg_backtracking_probability := atof v\<rparr>)
     else if flag = ''-slipprob'' then Some (cfg\<lparr>arg_slip_probability := atof v\<rparr>)
     else if flag = ''-iocthreshold'' then Some (cfg\<lparr>arg_ioc_threshold := atof v\<rparr>)
     else if flag = ''-dictionary'' \<or> flag = ''-dict'' then
       Some (cfg\<lparr>arg_dictionary_present_p := True, arg_dictionary_file := Some v\<rparr>)
     else if flag = ''-weightngram'' then Some (cfg\<lparr>arg_weight_ngram := atof v\<rparr>)
     else if flag = ''-weightcrib'' then Some (cfg\<lparr>arg_weight_crib := atof v\<rparr>)
     else if flag = ''-weightioc'' then Some (cfg\<lparr>arg_weight_ioc := atof v\<rparr>)
     else if flag = ''-weightentropy'' then Some (cfg\<lparr>arg_weight_entropy := atof v\<rparr>)
     else None)"

text \<open>The branches that read no value: \<^verbatim>\<open>-nlocal\<close> (ignored), \<^verbatim>\<open>-variant\<close>, \<^verbatim>\<open>-verbose\<close>.\<close>

definition set_flag :: "config \<Rightarrow> string \<Rightarrow> config option" where
  "set_flag cfg flag =
    (if flag = ''-nlocal'' then Some cfg
     else if flag = ''-variant'' then Some (cfg\<lparr>arg_variant := True\<rparr>)
     else if flag = ''-verbose'' then Some (cfg\<lparr>arg_verbose := True\<rparr>)
     else None)"

text \<open>
  The argument loop over \<^verbatim>\<open>argv[1 .. argc - 1]\<close>.  An unknown argument prints an error
  and returns 0 from \<^verbatim>\<open>main\<close>; a flag that wants a value at the end of the line reads
  the terminating null pointer of \<^verbatim>\<open>argv\<close>.
\<close>

datatype parse_stop = UnknownArg string | MissingValue string

fun parse_args ::
  "(string \<Rightarrow> int) \<Rightarrow> (string \<Rightarrow> real) \<Rightarrow> config \<Rightarrow> string list \<Rightarrow> parse_stop + config" where
  "parse_args atoi atof cfg [] = Inr cfg"
| "parse_args atoi atof cfg [flag] =
     (case set_flag cfg flag of
        Some cfg' \<Rightarrow> Inr cfg'
      | None \<Rightarrow> (case set_value atoi atof cfg flag [] of
                   Some _ \<Rightarrow> Inl (MissingValue flag)
                 | None \<Rightarrow> Inl (UnknownArg flag)))"
| "parse_args atoi atof cfg (flag # v # rest) =
     (case set_flag cfg flag of
        Some cfg' \<Rightarrow> parse_args atoi atof cfg' (v # rest)
      | None \<Rightarrow> (case set_value atoi atof cfg flag v of
                   Some cfg' \<Rightarrow> parse_args atoi atof cfg' rest
                 | None \<Rightarrow> Inl (UnknownArg flag)))"

subsection \<open>Random numbers and the keyword perturbation\<close>

text \<open>
  \<^verbatim>\<open>rand()\<close> is the C library's generator; each call returns some value in
  \<open>[0, RAND_MAX]\<close>.  The functions below take the values returned by the calls they make
  as arguments \<open>r0\<close>, \<open>r1\<close>, \<open>\<dots>\<close> in the order of the calls, and \<open>rand_max\<close> stands for
  \<^verbatim>\<open>RAND_MAX\<close>.  \<^verbatim>\<open>frand()\<close> is \<^verbatim>\<open>rand() / RAND_MAX\<close> and
  \<^verbatim>\<open>rand_int(min, max)\<close> is \<^verbatim>\<open>min + rand() % (max - min)\<close>, which divides by zero
  when the range is empty.
\<close>

definition frand :: "int \<Rightarrow> int \<Rightarrow> real" where
  "frand rand_max r = real_of_int r / real_of_int rand_max"

definition rand_int :: "int \<Rightarrow> int \<Rightarrow> int \<Rightarrow> fault + int" where
  "rand_int lo hi r = (if hi - lo = 0 then Inl DivideByZero else Inr (lo + r smod (hi - lo)))"

definition in_bounds :: "int list \<Rightarrow> int \<Rightarrow> bool" where
  "in_bounds a i = (0 \<le> i \<and> i < int (length a))"

text \<open>
  The three loops of the branch of \<^verbatim>\<open>perturbate_keyword\<close> that swaps a letter of the
  keyword block with one outside: \<^verbatim>\<open>for (k = j + 1; k < len; k++) state[k - 1] = state[k]\<close>
  (delete), \<^verbatim>\<open>for (l = len - 1; l > k; l--) state[l] = state[l - 1]\<close> (shunt along), and
  the search for the insertion point, which inserts at the first \<open>k\<close> from
  \<^verbatim>\<open>keyword_len\<close> on with \<^verbatim>\<open>state[k] > temp || k == len - 1\<close>.
\<close>

function delete_loop :: "int list \<Rightarrow> nat \<Rightarrow> nat \<Rightarrow> int list" where
  "delete_loop state k len =
     (if k < len then delete_loop (state[k - 1 := state ! k]) (Suc k) len else state)"
  by pat_completeness auto
termination
  by (relation "measure (\<lambda>(state, k, len). len - k)") auto

declare delete_loop.simps [simp del]

function shunt_loop :: "int list \<Rightarrow> nat \<Rightarrow> nat \<Rightarrow> int list" where
  "shunt_loop state l k =
     (if k < l then shunt_loop (state[l := state ! (l - 1)]) (l - 1) k else state)"
  by pat_completeness auto
termination
  by (relation "measure (\<lambda>(state, l, k). l)") auto

declare shunt_loop.simps [simp del]

function insert_loop :: "int list \<Rightarrow> nat \<Rightarrow> nat \<Rightarrow> int \<Rightarrow> int list" where
  "insert_loop state k len temp =
     (if k < len then
        (if temp < state ! k \<or> k = len - 1
         then (shunt_loop state (len - 1) k)[k := temp]
         else insert_loop state (Suc k) len temp)
      else state)"
  by pat_completeness auto
termination
  by (relation "measure (\<lambda>(state, k, len, temp). len - k)") auto

declare insert_loop.simps [simp del]

text \<open>
  \<^verbatim>\<open>perturbate_keyword(state, len, keyword_len)\<close> with the compile-time switches
  \<^verbatim>\<open>KRYPTOS_PT_SCRAMBLE\<close> and \<^verbatim>\<open>FREQUENCY_WEIGHTED_SELECTION\<close> off: it calls
  \<^verbatim>\<open>frand()\<close> once and \<^verbatim>\<open>rand_int\<close> twice.
\<close>

definition perturbate_keyword ::
  "int \<Rightarrow> int list \<Rightarrow> nat \<Rightarrow> nat \<Rightarrow> int \<Rightarrow> int \<Rightarrow> int \<Rightarrow> fault + int list" where
  "perturbate_keyword rand_max state len keyword_len r0 r1 r2 =
     (if frand rand_max r0 < 2 / 10 then
        (case rand_int 0 (int keyword_len) r1 of
           Inl e \<Rightarrow> Inl e
         | Inr i \<Rightarrow>
            (case rand_int 0 (int keyword_len) r2 of
               Inl e \<Rightarrow> Inl e
             | Inr j \<Rightarrow>
                 if in_bounds state i \<and> in_bounds state j
                 then Inr (state[nat i := state ! nat j, nat j := state ! nat i])
                 else Inl OutOfBounds))
      else
        (case rand_int 0 (int keyword_len) r1 of
           Inl e \<Rightarrow> Inl e
         | Inr i \<Rightarrow>
            (case rand_int (int keyword_len) (int len) r2 of
               Inl e \<Rightarrow> Inl e
             | Inr j \<Rightarrow>
                 if in_bounds state i \<and> in_bounds state j \<and> len \<le> length state
                 then
                   let temp = state ! nat i;
                       state1 = state[nat i := state ! nat j];
                       state2 = delete_loop state1 (nat j + 1) len
                   in Inr (insert_loop state2 keyword_len len temp)
                 else Inl OutOfBounds)))"

text \<open>
  The block encoding of a keyword array with keyword length \<open>k\<close>: the first \<open>k\<close> entries
  are distinct symbols, the entries \<open>[k, 26)\<close> are strictly ascending and are exactly the
  symbols that are not among the first \<open>k\<close>.
\<close>

definition block_encoded :: "int list \<Rightarrow> nat \<Rightarrow> bool" where
  "block_encoded state k =
     (length state = 26 \<and> k \<le> 26 \<and>
      distinct (take k state) \<and> list_all symbol (take k state) \<and>
      sorted_wrt (<) (drop k state) \<and>
      set (drop k state) = {0..<26} - set (take k state))"

subsection \<open>The crib feasibility gate \<^verbatim>\<open>cribs_satisfied_p\<close>\<close>

text \<open>
  The parallel arrays \<^verbatim>\<open>crib_positions\<close> and \<^verbatim>\<open>crib_indices\<close> of length
  \<^verbatim>\<open>n_cribs\<close> are one list of pairs (position, plaintext symbol).
\<close>

type_synonym crib = "nat \<times> int"

text \<open>
  Column extraction: \<^verbatim>\<open>k = 0; while (cycleword_len*k + j < cipher_len) { ...; k++; }\<close>
  collects the text positions of column \<open>j\<close> and the ciphertext symbols there.  The loop
  is only reached for \<open>j < cycleword_len\<close>, hence with a positive \<open>cycleword_len\<close>.
\<close>

function column_from :: "int list \<Rightarrow> nat \<Rightarrow> nat \<Rightarrow> nat \<Rightarrow> (nat \<times> int) list" where
  "column_from cipher_indices cycleword_len j k =
     (if 0 < cycleword_len \<and> cycleword_len * k + j < length cipher_indices
      then (cycleword_len * k + j, cipher_indices ! (cycleword_len * k + j))
             # column_from cipher_indices cycleword_len j (Suc k)
      else [])"
  by pat_completeness auto
termination
  by (relation "measure (\<lambda>(cipher_indices, cycleword_len, j, k).
        length cipher_indices - (cycleword_len * k + j))") auto

declare column_from.simps [simp del]

text \<open>
  The clash checks on the 26 by 26 table \<^verbatim>\<open>crib_frequencies[pt][ct]\<close>: along each row
  and along each column the entries are added up, and the check fails as soon as a running
  total exceeds 1.
\<close>

fun running_total_exceeds :: "int \<Rightarrow> int list \<Rightarrow> bool" where
  "running_total_exceeds tot [] = False"
| "running_total_exceeds tot (x # xs) =
     (1 < tot + x \<or> running_total_exceeds (tot + x) xs)"

definition row_clash :: "(int \<Rightarrow> int \<Rightarrow> int) \<Rightarrow> bool" where
  "row_clash crib_frequencies =
     list_ex (\<lambda>ii. running_total_exceeds 0 (map (\<lambda>jj. crib_frequencies ii jj) [0..25])) [0..25]"

definition col_clash :: "(int \<Rightarrow> int \<Rightarrow> int) \<Rightarrow> bool" where
  "col_clash crib_frequencies =
     list_ex (\<lambda>jj. running_total_exceeds 0 (map (\<lambda>ii. crib_frequencies ii jj) [0..25])) [0..25]"

text \<open>
  The loop over the column for one crib: where the crib's position is a position of the
  column, \<^verbatim>\<open>crib_frequencies[crib_indices[i]][ciphertext_column[k]] = 1\<close> and both
  clash checks.  \<open>Inr None\<close> is \<^verbatim>\<open>return false\<close>; a symbol outside \<open>[0, 26)\<close> would
  index outside the table.
\<close>

definition set_frequency :: "(int \<Rightarrow> int \<Rightarrow> int) \<Rightarrow> int \<Rightarrow> int \<Rightarrow> (int \<Rightarrow> int \<Rightarrow> int)" where
  "set_frequency crib_frequencies crib_char ct =
     crib_frequencies(crib_char := (crib_frequencies crib_char)(ct := 1))"

fun column_loop ::
  "(int \<Rightarrow> int \<Rightarrow> int) \<Rightarrow> nat \<Rightarrow> int \<Rightarrow> (nat \<times> int) list \<Rightarrow>
   fault + (int \<Rightarrow> int \<Rightarrow> int) option" where
  "column_loop crib_frequencies posn crib_char [] = Inr (Some crib_frequencies)"
| "column_loop crib_frequencies posn crib_char ((indx, ct) # column) =
     (if posn = indx then
        (if symbol crib_char \<and> symbol ct then
           (let crib_frequencies' = set_frequency crib_frequencies crib_char ct
            in if row_clash crib_frequencies' \<or> col_clash crib_frequencies'
               then Inr None
               else column_loop crib_frequencies' posn crib_char column)
         else Inl OutOfBounds)
      else column_loop crib_frequencies posn crib_char column)"

text \<open>The loop over the cribs for one column, the loop over the columns, and the function.
  With no cribs it returns true at once.\<close>

fun crib_loop ::
  "(int \<Rightarrow> int \<Rightarrow> int) \<Rightarrow> (nat \<times> int) list \<Rightarrow> crib list \<Rightarrow> fault + bool" where
  "crib_loop crib_frequencies column [] = Inr True"
| "crib_loop crib_frequencies column ((posn, crib_char) # cribs) =
     (case column_loop crib_frequencies posn crib_char column of
        Inl e \<Rightarrow> Inl e
      | Inr None \<Rightarrow> Inr False
      | Inr (Some crib_frequencies') \<Rightarrow> crib_loop crib_frequencies' column cribs)"

fun check_columns :: "int list \<Rightarrow> crib list \<Rightarrow> nat \<Rightarrow> nat list \<Rightarrow> fault + bool" where
  "check_columns cipher_indices cribs cycleword_len [] = Inr True"
| "check_columns cipher_indices cribs cycleword_len (j # js) =
     (case crib_loop (\<lambda>i k. 0) (column_from cipher_indices cycleword_len j 0) cribs of
        Inl e \<Rightarrow> Inl e
      | Inr False \<Rightarrow> Inr False
      | Inr True \<Rightarrow> check_columns cipher_indices cribs cycleword_len js)"

definition cribs_satisfied_p :: "int list \<Rightarrow> crib list \<Rightarrow> nat \<Rightarrow> fault + bool" where
  "cribs_satisfied_p cipher_indices cribs cycleword_len =
     (if cribs = [] then Inr True
      else check_columns cipher_indices cribs cycleword_len [0..<cycleword_len])"

text \<open>
  The crib-induced pairs (ciphertext symbol, plaintext symbol) of column \<open>c\<close> at period
  \<open>p\<close>, and what it means for them to be a partial bijection.
\<close>

definition column_pairs :: "int list \<Rightarrow> crib list \<Rightarrow> nat \<Rightarrow> nat \<Rightarrow> (int \<times> int) set" where
  "column_pairs cipher_indices cribs p c =
     set (map (\<lambda>(posn, crib_char). (cipher_indices ! posn, crib_char))
           (filter (\<lambda>(posn, crib_char). posn < length cipher_indices \<and> posn mod p = c) cribs))"

definition partial_bijection :: "(int \<times> int) set \<Rightarrow> bool" where
  "partial_bijection R = (\<forall>(a, b)\<in>R. \<forall>(a', b')\<in>R. (a = a') = (b = b'))"

definition valid_cribs :: "crib list \<Rightarrow> bool" where
  "valid_cribs cribs = list_all (\<lambda>(posn, crib_char). symbol crib_char) cribs"

text \<open>The table that holds exactly the pairs of a set, and sets of pairs of symbols.\<close>

definition indicator_of :: "(int \<times> int) set \<Rightarrow> int \<Rightarrow> int \<Rightarrow> int" where
  "indicator_of R = (\<lambda>crib_char ct. if (ct, crib_char) \<in> R then 1 else 0)"

definition symbol_pairs :: "(int \<times> int) set \<Rightarrow> bool" where
  "symbol_pairs R = (\<forall>(a, b)\<in>R. symbol a \<and> symbol b)"

subsection \<open>The cycleword constraint \<^verbatim>\<open>constrain_cycleword\<close>\<close>

text \<open>
  \<^verbatim>\<open>INACTIVE\<close> is a constant of the header \<^verbatim>\<open>quagmire.h\<close>, which is not among the
  sources; it is the parameter \<open>inactive\<close>.

  The loop over the cribs for the cycleword position \<open>i\<close>.  For a crib of column \<open>i\<close>
  the two searches (in \<open>C\<close> and \<open>P\<close>, or in \<open>P\<close> and \<open>C\<close> for the variant) give the
  rotation \<open>indx\<close>; the derived cycleword symbol is \<^verbatim>\<open>plaintext_keyword_indices[indx]\<close>.
  The first crib of the column writes it to \<^verbatim>\<open>crib_cyclewords[i]\<close> and
  \<^verbatim>\<open>cycleword_indices[i]\<close>; a later crib that derives another symbol makes the function
  return true (the first component of the result).
\<close>

fun constrain_column ::
  "int \<Rightarrow> int list \<Rightarrow> int list \<Rightarrow> int list \<Rightarrow> bool \<Rightarrow> nat \<Rightarrow>
   int list \<Rightarrow> int list \<Rightarrow> nat option \<Rightarrow> nat option \<Rightarrow> crib list \<Rightarrow>
   fault + (bool \<times> int list \<times> int list \<times> nat option \<times> nat option)" where
  "constrain_column inactive cipher_indices P C variant i crib_cyclewords cycleword_indices
       posn_keyword posn_cycleword [] =
     Inr (False, crib_cyclewords, cycleword_indices, posn_keyword, posn_cycleword)"
| "constrain_column inactive cipher_indices P C variant i crib_cyclewords cycleword_indices
       posn_keyword posn_cycleword ((posn, crib_char) # cribs) =
     (if posn mod length cycleword_indices = i then
        (if posn < length cipher_indices then
           (let ciphertext_char = cipher_indices ! posn;
                posn_keyword' =
                  assign_posn (find_from (if variant then P else C) ciphertext_char 0) posn_keyword;
                posn_cycleword' =
                  assign_posn (find_from (if variant then C else P) crib_char 0) posn_cycleword
            in case (posn_keyword', posn_cycleword') of
                 (Some pk, Some pc) \<Rightarrow>
                   (let indx = wrap_index (if variant then int pc - int pk else int pk - int pc);
                        v = P ! nat indx
                    in if crib_cyclewords ! i = inactive then
                         constrain_column inactive cipher_indices P C variant i
                           (crib_cyclewords[i := v]) (cycleword_indices[i := v])
                           posn_keyword' posn_cycleword' cribs
                       else if crib_cyclewords ! i \<noteq> v then
                         Inr (True, crib_cyclewords, cycleword_indices,
                              posn_keyword', posn_cycleword')
                       else
                         constrain_column inactive cipher_indices P C variant i
                           crib_cyclewords cycleword_indices posn_keyword' posn_cycleword' cribs)
               | _ \<Rightarrow> Inl UnsetVariable)
         else Inl OutOfBounds)
      else
        constrain_column inactive cipher_indices P C variant i crib_cyclewords cycleword_indices
          posn_keyword posn_cycleword cribs)"

text \<open>The loop over the cycleword positions, and the function: with no cribs it returns
  false at once; otherwise \<^verbatim>\<open>crib_cyclewords\<close> starts as \<^verbatim>\<open>INACTIVE\<close> everywhere.  The
  result is the returned flag and the cycleword array as the call leaves it.\<close>

fun constrain_columns ::
  "int \<Rightarrow> int list \<Rightarrow> crib list \<Rightarrow> int list \<Rightarrow> int list \<Rightarrow> bool \<Rightarrow>
   int list \<Rightarrow> int list \<Rightarrow> nat option \<Rightarrow> nat option \<Rightarrow> nat list \<Rightarrow>
   fault + (bool \<times> int list)" where
  "constrain_columns inactive cipher_indices cribs P C variant crib_cyclewords cycleword_indices
       posn_keyword posn_cycleword [] = Inr (False, cycleword_indices)"
| "constrain_columns inactive cipher_indices cribs P C variant crib_cyclewords cycleword_indices
       posn_keyword posn_cycleword (i # is) =
     (case constrain_column inactive cipher_indices P C variant i crib_cyclewords cycleword_indices
             posn_keyword posn_cycleword cribs of
        Inl e \<Rightarrow> Inl e
      | Inr (True, crib_cyclewords', cycleword_indices', posn_keyword', posn_cycleword') \<Rightarrow>
          Inr (True, cycleword_indices')
      | Inr (False, crib_cyclewords', cycleword_indices', posn_keyword', posn_cycleword') \<Rightarrow>
          constrain_columns inactive cipher_indices cribs P C variant crib_cyclewords'
            cycleword_indices' posn_keyword' posn_cycleword' is)"

definition constrain_cycleword ::
  "int \<Rightarrow> int list \<Rightarrow> crib list \<Rightarrow> int list \<Rightarrow> int list \<Rightarrow> int list \<Rightarrow> bool \<Rightarrow>
   fault + (bool \<times> int list)" where
  "constrain_cycleword inactive cipher_indices cribs P C cycleword_indices variant =
     (if cribs = [] then Inr (False, cycleword_indices)
      else if length P = 26 \<and> length C = 26 then
        constrain_columns inactive cipher_indices cribs P C variant
          (replicate (length cycleword_indices) inactive) cycleword_indices None None
          [0..<length cycleword_indices]
      else Inl OutOfBounds)"

text \<open>The keyed alphabet of the keyword \<open>BA\<close>: \<open>BACDEFGHIJKLMNOPQRSTUVWXYZ\<close>.\<close>

definition keyword_BA :: "int list" where
  "keyword_BA = [1, 0, 2, 3, 4, 5, 6, 7, 8, 9, 10, 11, 12, 13, 14, 15, 16, 17, 18, 19, 20, 21, 22, 23, 24, 25]"

subsection \<open>Text statistics and the fitness function \<^verbatim>\<open>state_score\<close>\<close>

text \<open>\<^verbatim>\<open>tally\<close>: \<^verbatim>\<open>frequencies[plaintext[i]]++\<close> for every position of the text, from
  all zeros.\<close>

fun tally_loop :: "int list \<Rightarrow> int list \<Rightarrow> fault + int list" where
  "tally_loop [] frequencies = Inr frequencies"
| "tally_loop (x # plaintext) frequencies =
     (if in_bounds frequencies x
      then tally_loop plaintext (frequencies[nat x := frequencies ! nat x + 1])
      else Inl OutOfBounds)"

definition tally :: "int list \<Rightarrow> nat \<Rightarrow> fault + int list" where
  "tally plaintext n_frequencies = tally_loop plaintext (replicate n_frequencies 0)"

text \<open>
  \<^verbatim>\<open>index_of_coincidence\<close>: the sum of \<^verbatim>\<open>frequencies[i]*(frequencies[i] - 1)\<close>, divided
  by \<^verbatim>\<open>len*(len - 1)\<close>.  (The source returns the \<^verbatim>\<open>double\<close> as a \<^verbatim>\<open>float\<close>.)
\<close>

definition index_of_coincidence :: "int list \<Rightarrow> fault + real" where
  "index_of_coincidence plaintext =
     (case tally plaintext 26 of
        Inl e \<Rightarrow> Inl e
      | Inr frequencies \<Rightarrow>
          (let ioc = foldl (\<lambda>ioc f. ioc + real_of_int (f * (f - 1))) 0 frequencies;
               len = int (length plaintext)
           in if len * (len - 1) = 0 then Inl NonFinite
              else Inr (ioc / real_of_int (len * (len - 1)))))"

text \<open>\<^verbatim>\<open>entropy\<close>: for every letter with a positive count,
  \<^verbatim>\<open>freq = frequencies[i]/len; entropy -= freq*log(freq)\<close>.\<close>

definition entropy :: "int list \<Rightarrow> fault + real" where
  "entropy txt =
     (case tally txt 26 of
        Inl e \<Rightarrow> Inl e
      | Inr frequencies \<Rightarrow>
          Inr (foldl (\<lambda>entropy f.
                 if 0 < f
                 then (let freq = real_of_int f / real (length txt) in entropy - freq * ln freq)
                 else entropy) 0 frequencies))"

text \<open>\<^verbatim>\<open>crib_score\<close>: 0 with no cribs, else the number of cribs with
  \<^verbatim>\<open>text[crib_positions[i]] == crib_indices[i]\<close> divided by \<^verbatim>\<open>n_cribs\<close>.\<close>

fun count_matches :: "int list \<Rightarrow> crib list \<Rightarrow> int \<Rightarrow> fault + int" where
  "count_matches txt [] n_matches = Inr n_matches"
| "count_matches txt ((posn, crib_char) # cribs) n_matches =
     (if posn < length txt
      then count_matches txt cribs (if txt ! posn = crib_char then n_matches + 1 else n_matches)
      else Inl OutOfBounds)"

definition crib_score :: "int list \<Rightarrow> crib list \<Rightarrow> fault + real" where
  "crib_score txt cribs =
     (if cribs = [] then Inr 0
      else case count_matches txt cribs 0 of
             Inl e \<Rightarrow> Inl e
           | Inr n_matches \<Rightarrow> Inr (real_of_int n_matches / real (length cribs)))"

text \<open>
  \<^verbatim>\<open>ngram_score\<close>.  The inner loop computes the table index of the window at \<open>i\<close>
  (\<^verbatim>\<open>index += decrypted[i + j]*base; base *= ALPHABET_SIZE\<close>), the outer loop runs over
  \<^verbatim>\<open>i < cipher_len - ngram_size\<close> and adds \<^verbatim>\<open>ngram_data[index]\<close>; the table has
  \<open>26 ^ ngram_size\<close> entries.  Then
  \<^verbatim>\<open>score = pow(ALPHABET_SIZE, ngram_size)*score/(cipher_len - ngram_size)\<close>.
  The index and the base are \<^verbatim>\<open>int\<close>s in C and integers without bound here; they agree
  for \<^verbatim>\<open>ngram_size\<close> up to 6, where \<open>26 ^ 6 < 2 ^ 31\<close>, and the statement on the score
  below is for these sizes.
\<close>

fun ngram_index :: "int list \<Rightarrow> int \<Rightarrow> int \<Rightarrow> int" where
  "ngram_index [] indx base = indx"
| "ngram_index (d # ds) indx base = ngram_index ds (indx + d * base) (base * 26)"

function ngram_loop :: "int list \<Rightarrow> (int \<Rightarrow> real) \<Rightarrow> nat \<Rightarrow> nat \<Rightarrow> real \<Rightarrow> fault + real" where
  "ngram_loop decrypted ngram_data ngram_size i score =
     (if int i < int (length decrypted) - int ngram_size then
        (let indx = ngram_index (take ngram_size (drop i decrypted)) 0 1
         in if 0 \<le> indx \<and> indx < 26 ^ ngram_size
            then ngram_loop decrypted ngram_data ngram_size (Suc i) (score + ngram_data indx)
            else Inl OutOfBounds)
      else Inr score)"
  by pat_completeness auto
termination
  by (relation "measure (\<lambda>(decrypted, ngram_data, ngram_size, i, score). length decrypted - i)") auto

declare ngram_loop.simps [simp del]

definition ngram_score :: "int list \<Rightarrow> (int \<Rightarrow> real) \<Rightarrow> nat \<Rightarrow> fault + real" where
  "ngram_score decrypted ngram_data ngram_size =
     (case ngram_loop decrypted ngram_data ngram_size 0 0 of
        Inl e \<Rightarrow> Inl e
      | Inr score \<Rightarrow>
          if int (length decrypted) - int ngram_size = 0 then Inl NonFinite
          else Inr (26 ^ ngram_size * score
                      / real_of_int (int (length decrypted) - int ngram_size)))"

text \<open>\<^verbatim>\<open>state_score\<close>: the text is transformed with \<^verbatim>\<open>quagmire_encrypt\<close> for the
  variant and with \<^verbatim>\<open>quagmire_decrypt\<close> otherwise, and the four scores are combined.\<close>

definition state_score ::
  "int list \<Rightarrow> crib list \<Rightarrow> int list \<Rightarrow> int list \<Rightarrow> int list \<Rightarrow> bool \<Rightarrow> bool \<Rightarrow>
   (int \<Rightarrow> real) \<Rightarrow> nat \<Rightarrow> real \<Rightarrow> real \<Rightarrow> real \<Rightarrow> real \<Rightarrow> fault + real" where
  "state_score cipher_indices cribs P C W variant beaufort ngram_data ngram_size
       weight_ngram weight_crib weight_ioc weight_entropy =
     (case (if variant then quagmire_encrypt cipher_indices P C W beaufort
            else quagmire_decrypt cipher_indices P C W beaufort) of
        Inl e \<Rightarrow> Inl e
      | Inr decrypted \<Rightarrow>
     (case ngram_score decrypted ngram_data ngram_size of
        Inl e \<Rightarrow> Inl e
      | Inr decrypted_ngram_score \<Rightarrow>
     (case crib_score decrypted cribs of
        Inl e \<Rightarrow> Inl e
      | Inr decrypted_crib_score \<Rightarrow>
     (case index_of_coincidence decrypted of
        Inl e \<Rightarrow> Inl e
      | Inr ioc \<Rightarrow>
     (case entropy decrypted of
        Inl e \<Rightarrow> Inl e
      | Inr h \<Rightarrow>
          (let ioc_score = exp (- ((26 * ioc - 1742 / 1000)\<^sup>2));
               entropy_score = exp (- ((h - 285 / 100)\<^sup>2));
               score = weight_ngram * decrypted_ngram_score + weight_crib * decrypted_crib_score
                       + weight_ioc * ioc_score + weight_entropy * entropy_score
           in if weight_ngram + weight_crib + weight_ioc + weight_entropy = 0
              then Inl NonFinite
              else Inr (score / (weight_ngram + weight_crib + weight_ioc + weight_entropy)
                          / (341 / 100))))))))"

text \<open>
  Modelled from the spec: the scores as the specification writes them, for a text \<open>D\<close> of
  length \<open>L\<close>.  \<open>ngram_at D i n\<close> is the table index of the \<open>n\<close>-gram at position \<open>i\<close>.
  \<open>S_ngram\<close> is \<open>26 ^ n\<close> times the sum of the table entries of the \<open>n\<close>-grams of \<open>D\<close>,
  which start at the positions \<open>0, \<dots>, L - n\<close>, divided by \<open>L - n\<close>.
  \<open>S_crib\<close> is the fraction of cribs matched;
  the index of coincidence and the entropy (in nats) are taken from the letter counts, and
  the scores \<open>S_ioc\<close> and \<open>S_entropy\<close> are made of them.
\<close>

definition ngram_at :: "int list \<Rightarrow> nat \<Rightarrow> nat \<Rightarrow> int" where
  "ngram_at D i n = (\<Sum>j<n. D ! (i + j) * 26 ^ j)"

definition S_ngram :: "int list \<Rightarrow> (int \<Rightarrow> real) \<Rightarrow> nat \<Rightarrow> real" where
  "S_ngram D logp n =
     26 ^ n * (\<Sum>i<Suc (length D) - n. logp (ngram_at D i n)) / (real (length D) - real n)"

text \<open>
  The sum that the loop of \<^verbatim>\<open>ngram_score\<close> computes, with its bound
  \<^verbatim>\<open>i < cipher_len - ngram_size\<close>: the same without the last \<open>n\<close>-gram, over the positions
  \<open>0, \<dots>, L - n - 1\<close> only.
\<close>

definition S_ngram_leading :: "int list \<Rightarrow> (int \<Rightarrow> real) \<Rightarrow> nat \<Rightarrow> real" where
  "S_ngram_leading D logp n =
     26 ^ n * (\<Sum>i<length D - n. logp (ngram_at D i n)) / (real (length D) - real n)"

definition S_crib :: "int list \<Rightarrow> crib list \<Rightarrow> real" where
  "S_crib D cribs =
     (if cribs = [] then 0
      else real (length (filter (\<lambda>(posn, crib_char). D ! posn = crib_char) cribs))
             / real (length cribs))"

definition letter_count :: "int list \<Rightarrow> nat \<Rightarrow> int" where
  "letter_count D i = int (count_list D (int i))"

definition IoC :: "int list \<Rightarrow> real" where
  "IoC D = (\<Sum>i<26. real_of_int (letter_count D i * (letter_count D i - 1)))
             / (real (length D) * (real (length D) - 1))"

definition S_ioc :: "int list \<Rightarrow> real" where
  "S_ioc D = exp (- ((26 * IoC D - 1742 / 1000)\<^sup>2))"

definition H_entropy :: "int list \<Rightarrow> real" where
  "H_entropy D =
     - (\<Sum>i<26. if 0 < letter_count D i
               then real_of_int (letter_count D i) / real (length D)
                      * ln (real_of_int (letter_count D i) / real (length D))
               else 0)"

definition S_entropy :: "int list \<Rightarrow> real" where
  "S_entropy D = exp (- ((H_entropy D - 285 / 100)\<^sup>2))"

definition cribs_in_text :: "crib list \<Rightarrow> nat \<Rightarrow> bool" where
  "cribs_in_text cribs len = list_all (\<lambda>(posn, crib_char). posn < len) cribs"

subsection \<open>The shotgun hill climber\<close>

text \<open>
  Modelled from the spec: the cipher kinds \<^verbatim>\<open>VIGENERE\<close>, \<^verbatim>\<open>QUAGMIRE_1\<close>, \<dots>, \<^verbatim>\<open>BEAUFORT\<close> are
  macros of the header \<^verbatim>\<open>quagmire.h\<close>, which is not among the sources.  Their values are those
  the specification gives for the option \<^verbatim>\<open>-type\<close> (0 Vigenere, 1 to 4 Quagmire I to IV,
  5 Beaufort); the proofs below use only that they are distinct.
\<close>

definition VIGENERE :: int where "VIGENERE = 0"
definition QUAGMIRE_1 :: int where "QUAGMIRE_1 = 1"
definition QUAGMIRE_2 :: int where "QUAGMIRE_2 = 2"
definition QUAGMIRE_3 :: int where "QUAGMIRE_3 = 3"
definition QUAGMIRE_4 :: int where "QUAGMIRE_4 = 4"
definition BEAUFORT :: int where "BEAUFORT = 5"

text \<open>
  The generator is the stream of the values that the successive calls of \<^verbatim>\<open>rand()\<close>
  return; \<open>rand_tail k rng\<close> is the stream after \<open>k\<close> calls.
\<close>

definition rand_tail :: "nat \<Rightarrow> (nat \<Rightarrow> int) \<Rightarrow> (nat \<Rightarrow> int)" where
  "rand_tail k rng = (\<lambda>n. rng (n + k))"

text \<open>
  \<^verbatim>\<open>random_keyword\<close> draws letters until it has \<^verbatim>\<open>keyword_len\<close> distinct ones (a loop that
  need not end: no result is \<open>None\<close>), then appends the unused letters in alphabetical
  order.  \<^verbatim>\<open>random_cycleword\<close> draws \<^verbatim>\<open>keyword_len\<close> letters.  \<^verbatim>\<open>perturbate_cycleword\<close>
  draws an index and a letter and stores the letter there.
\<close>

partial_function (option) random_keyword_letters ::
  "(nat \<Rightarrow> int) \<Rightarrow> int list \<Rightarrow> nat \<Rightarrow> (fault + int list \<times> (nat \<Rightarrow> int)) option" where
  "random_keyword_letters rng keyword keyword_len =
     (if length keyword < keyword_len then
        (case rand_int 0 26 (rng 0) of
           Inl e \<Rightarrow> Some (Inl e)
         | Inr candidate \<Rightarrow>
             if candidate \<in> set keyword
             then random_keyword_letters (rand_tail 1 rng) keyword keyword_len
             else random_keyword_letters (rand_tail 1 rng) (keyword @ [candidate]) keyword_len)
      else Some (Inr (keyword, rng)))"

definition random_keyword ::
  "(nat \<Rightarrow> int) \<Rightarrow> nat \<Rightarrow> (fault + int list \<times> (nat \<Rightarrow> int)) option" where
  "random_keyword rng keyword_len =
     (case random_keyword_letters rng [] keyword_len of
        None \<Rightarrow> None
      | Some (Inl e) \<Rightarrow> Some (Inl e)
      | Some (Inr (keyword, rng')) \<Rightarrow>
          Some (Inr (keyword @ filter (\<lambda>i. i \<notin> set keyword) [0..25], rng')))"

fun random_cycleword :: "(nat \<Rightarrow> int) \<Rightarrow> nat \<Rightarrow> fault + int list \<times> (nat \<Rightarrow> int)" where
  "random_cycleword rng 0 = Inr ([], rng)"
| "random_cycleword rng (Suc n) =
     (case rand_int 0 26 (rng 0) of
        Inl e \<Rightarrow> Inl e
      | Inr c \<Rightarrow>
          (case random_cycleword (rand_tail 1 rng) n of
             Inl e \<Rightarrow> Inl e
           | Inr (cs, rng') \<Rightarrow> Inr (c # cs, rng')))"

definition perturbate_cycleword ::
  "int list \<Rightarrow> nat \<Rightarrow> (nat \<Rightarrow> int) \<Rightarrow> fault + int list \<times> (nat \<Rightarrow> int)" where
  "perturbate_cycleword state len rng =
     (case rand_int 0 (int len) (rng 0) of
        Inl e \<Rightarrow> Inl e
      | Inr i \<Rightarrow>
          (case rand_int 0 26 (rng 1) of
             Inl e \<Rightarrow> Inl e
           | Inr v \<Rightarrow>
               if in_bounds state i then Inr (state[nat i := v], rand_tail 2 rng)
               else Inl OutOfBounds))"

text \<open>
  The arguments of \<^verbatim>\<open>quagmire_shotgun_hill_climber\<close> that are not options of the command
  line (the ciphertext, the cribs, the lengths chosen by the caller, the n-gram table, the
  Beaufort flag) together with \<^verbatim>\<open>RAND_MAX\<close> and \<^verbatim>\<open>INACTIVE\<close>; the other arguments are read
  from the \<open>config\<close>.  The local variables of the function that live across iterations form
  the \<open>search_state\<close>; the best state is \<open>None\<close> while the three \<^verbatim>\<open>best_*\<close> arrays are
  uninitialised.
\<close>

record task =
  task_cipher_indices :: "int list"
  task_cribs :: "crib list"
  task_cycleword_len :: nat
  task_plaintext_keyword_len :: nat
  task_ciphertext_keyword_len :: nat
  task_ngram_data :: "int \<Rightarrow> real"
  task_beaufort :: bool
  task_rand_max :: int
  task_inactive :: int

record search_state =
  current_plaintext_keyword_state :: "int list"
  current_ciphertext_keyword_state :: "int list"
  current_cycleword_state :: "int list"
  current_score :: real
  best_state :: "(int list \<times> int list \<times> int list) option"
  best_score :: real
  perturbate_keyword_p :: bool
  n_iterations :: int
  n_backtracks :: int
  n_explore :: int
  n_contradictions :: int
  rng :: "nat \<Rightarrow> int"

definition initial_search_state :: "(nat \<Rightarrow> int) \<Rightarrow> search_state" where
  "initial_search_state rng0 = \<lparr>
     current_plaintext_keyword_state = [], current_ciphertext_keyword_state = [],
     current_cycleword_state = [], current_score = 0, best_state = None, best_score = 0,
     perturbate_keyword_p = False, n_iterations = 0, n_backtracks = 0, n_explore = 0,
     n_contradictions = 0, rng = rng0 \<rparr>"

text \<open>\<^verbatim>\<open>if (cipher_type == VIGENERE) cycleword_len = ALPHABET_SIZE;\<close> at the head of the
  function.\<close>

definition effective_cycleword_len :: "config \<Rightarrow> task \<Rightarrow> nat" where
  "effective_cycleword_len cfg t =
     (if arg_cipher_type cfg = VIGENERE then 26 else task_cycleword_len t)"

definition score_of :: "config \<Rightarrow> task \<Rightarrow> int list \<Rightarrow> int list \<Rightarrow> int list \<Rightarrow> fault + real" where
  "score_of cfg t P C W =
     state_score (task_cipher_indices t) (task_cribs t) P C W (arg_variant cfg) (task_beaufort t)
       (task_ngram_data t) (nat (arg_ngram_size cfg))
       (arg_weight_ngram cfg) (arg_weight_crib cfg) (arg_weight_ioc cfg) (arg_weight_entropy cfg)"

text \<open>
  The head of a restart.  With \<^verbatim>\<open>best_score > 0. && frand() < backtracking_probability\<close>
  the best state becomes the current one; otherwise the \<^verbatim>\<open>switch\<close> on the cipher kind
  draws a random state, which is scored.  The blocks under \<^verbatim>\<open>#if 0\<close>, \<^verbatim>\<open>KRYPTOS_PT\<close>,
  \<^verbatim>\<open>KRYPTOS_CT\<close>, \<^verbatim>\<open>KOMITET_PT\<close>, \<^verbatim>\<open>KOMITET_CT\<close>, \<^verbatim>\<open>SOLUBLE_PT\<close> and \<^verbatim>\<open>SOLUBLE_CT\<close> are taken
  as compiled out.  For Beaufort the source also sets the two keyword lengths to 26; they
  are not read again for this cipher kind.  Both branches are followed by
  \<^verbatim>\<open>perturbate_keyword_p = true;\<close>.
\<close>

definition initialise_random_state ::
  "config \<Rightarrow> task \<Rightarrow> search_state \<Rightarrow> (fault + search_state) option" where
  "initialise_random_state cfg t st =
     (if arg_cipher_type cfg = VIGENERE then
        (case random_keyword (rng st) (task_plaintext_keyword_len t) of
           None \<Rightarrow> None
         | Some (Inl e) \<Rightarrow> Some (Inl e)
         | Some (Inr (P, rng1)) \<Rightarrow>
             Some (Inr (st\<lparr>current_plaintext_keyword_state := P,
                           current_ciphertext_keyword_state := P,
                           current_cycleword_state := P, rng := rng1\<rparr>)))
      else if arg_cipher_type cfg = QUAGMIRE_1 then
        (case random_keyword (rng st) (task_plaintext_keyword_len t) of
           None \<Rightarrow> None
         | Some (Inl e) \<Rightarrow> Some (Inl e)
         | Some (Inr (P, rng1)) \<Rightarrow>
             (case random_cycleword rng1 (task_cycleword_len t) of
                Inl e \<Rightarrow> Some (Inl e)
              | Inr (W, rng2) \<Rightarrow>
                  Some (Inr (st\<lparr>current_plaintext_keyword_state := P,
                                current_ciphertext_keyword_state := straight_alphabet 26,
                                current_cycleword_state := W, rng := rng2\<rparr>))))
      else if arg_cipher_type cfg = QUAGMIRE_2 then
        (case random_keyword (rng st) (task_ciphertext_keyword_len t) of
           None \<Rightarrow> None
         | Some (Inl e) \<Rightarrow> Some (Inl e)
         | Some (Inr (C, rng1)) \<Rightarrow>
             (case random_cycleword rng1 (task_cycleword_len t) of
                Inl e \<Rightarrow> Some (Inl e)
              | Inr (W, rng2) \<Rightarrow>
                  Some (Inr (st\<lparr>current_plaintext_keyword_state := straight_alphabet 26,
                                current_ciphertext_keyword_state := C,
                                current_cycleword_state := W, rng := rng2\<rparr>))))
      else if arg_cipher_type cfg = QUAGMIRE_3 then
        (case random_keyword (rng st) (task_plaintext_keyword_len t) of
           None \<Rightarrow> None
         | Some (Inl e) \<Rightarrow> Some (Inl e)
         | Some (Inr (P, rng1)) \<Rightarrow>
             (case random_cycleword rng1 (task_cycleword_len t) of
                Inl e \<Rightarrow> Some (Inl e)
              | Inr (W, rng2) \<Rightarrow>
                  Some (Inr (st\<lparr>current_plaintext_keyword_state := P,
                                current_ciphertext_keyword_state := P,
                                current_cycleword_state := W, rng := rng2\<rparr>))))
      else if arg_cipher_type cfg = QUAGMIRE_4 then
        (case random_keyword (rng st) (task_plaintext_keyword_len t) of
           None \<Rightarrow> None
         | Some (Inl e) \<Rightarrow> Some (Inl e)
         | Some (Inr (P, rng1)) \<Rightarrow>
             (case random_keyword rng1 (task_ciphertext_keyword_len t) of
                None \<Rightarrow> None
              | Some (Inl e) \<Rightarrow> Some (Inl e)
              | Some (Inr (C, rng2)) \<Rightarrow>
                  (case random_cycleword rng2 (task_cycleword_len t) of
                     Inl e \<Rightarrow> Some (Inl e)
                   | Inr (W, rng3) \<Rightarrow>
                       Some (Inr (st\<lparr>current_plaintext_keyword_state := P,
                                     current_ciphertext_keyword_state := C,
                                     current_cycleword_state := W, rng := rng3\<rparr>)))))
      else if arg_cipher_type cfg = BEAUFORT then
        (case random_cycleword (rng st) (task_cycleword_len t) of
           Inl e \<Rightarrow> Some (Inl e)
         | Inr (W, rng1) \<Rightarrow>
             Some (Inr (st\<lparr>current_plaintext_keyword_state := straight_alphabet 26,
                           current_ciphertext_keyword_state := straight_alphabet 26,
                           current_cycleword_state := W, rng := rng1\<rparr>)))
      else Some (Inr st))"

definition restart_begin :: "config \<Rightarrow> task \<Rightarrow> search_state \<Rightarrow> (fault + search_state) option" where
  "restart_begin cfg t st =
     (if 0 < best_score st \<and>
         frand (task_rand_max t) (rng st 0) < arg_backtracking_probability cfg
      then
        (case best_state st of
           None \<Rightarrow> Some (Inl UnsetVariable)
         | Some (P, C, W) \<Rightarrow>
             Some (Inr (st\<lparr>n_backtracks := n_backtracks st + 1,
                           current_score := best_score st,
                           current_plaintext_keyword_state := P,
                           current_ciphertext_keyword_state := C,
                           current_cycleword_state := W,
                           rng := rand_tail 1 (rng st),
                           perturbate_keyword_p := True\<rparr>)))
      else
        (case initialise_random_state cfg t
                (st\<lparr>rng := (if 0 < best_score st then rand_tail 1 (rng st) else rng st)\<rparr>) of
           None \<Rightarrow> None
         | Some (Inl e) \<Rightarrow> Some (Inl e)
         | Some (Inr st1) \<Rightarrow>
             (case score_of cfg t (current_plaintext_keyword_state st1)
                     (current_ciphertext_keyword_state st1) (current_cycleword_state st1) of
                Inl e \<Rightarrow> Some (Inl e)
              | Inr s \<Rightarrow> Some (Inr (st1\<lparr>current_score := s, perturbate_keyword_p := True\<rparr>)))))"

text \<open>
  The choice of the move,
  \<^verbatim>\<open>cipher_type != BEAUFORT && (perturbate_keyword_p || cipher_type == VIGENERE || frand() < keyword_permutation_probability)\<close>,
  with the short-circuit evaluation of C: \<^verbatim>\<open>frand\<close> is called only when the tests before
  it leave the result open.  The result is whether a keyword is perturbed, and the
  generator after the choice.
\<close>

definition choose_keyword_move ::
  "int \<Rightarrow> bool \<Rightarrow> real \<Rightarrow> int \<Rightarrow> (nat \<Rightarrow> int) \<Rightarrow> bool \<times> (nat \<Rightarrow> int)" where
  "choose_keyword_move cipher_type must_perturb keyword_permutation_probability rand_max r =
     (if cipher_type = BEAUFORT then (False, r)
      else if must_perturb \<or> cipher_type = VIGENERE then (True, r)
      else (frand rand_max (r 0) < keyword_permutation_probability, rand_tail 1 r))"

text \<open>
  The candidate of an iteration: the copies of the current state, with the keyword
  perturbed as the cipher kind prescribes, or else the cycleword perturbed.
\<close>

definition perturbate_candidate ::
  "config \<Rightarrow> task \<Rightarrow> search_state \<Rightarrow>
   fault + int list \<times> int list \<times> int list \<times> (nat \<Rightarrow> int)" where
  "perturbate_candidate cfg t st =
     (let P = current_plaintext_keyword_state st;
          C = current_ciphertext_keyword_state st;
          W = current_cycleword_state st;
          rm = task_rand_max t;
          pkl = task_plaintext_keyword_len t;
          ckl = task_ciphertext_keyword_len t
      in case choose_keyword_move (arg_cipher_type cfg) (perturbate_keyword_p st)
                (arg_keyword_permutation_probability cfg) rm (rng st) of
           (True, r) \<Rightarrow>
             (if arg_cipher_type cfg = VIGENERE then
                (case perturbate_keyword rm P 26 pkl (r 0) (r 1) (r 2) of
                   Inl e \<Rightarrow> Inl e
                 | Inr P' \<Rightarrow> Inr (P', P', P', rand_tail 3 r))
              else if arg_cipher_type cfg = QUAGMIRE_1 then
                (case perturbate_keyword rm P 26 pkl (r 0) (r 1) (r 2) of
                   Inl e \<Rightarrow> Inl e
                 | Inr P' \<Rightarrow> Inr (P', C, W, rand_tail 3 r))
              else if arg_cipher_type cfg = QUAGMIRE_2 then
                (case perturbate_keyword rm C 26 ckl (r 0) (r 1) (r 2) of
                   Inl e \<Rightarrow> Inl e
                 | Inr C' \<Rightarrow> Inr (P, C', W, rand_tail 3 r))
              else if arg_cipher_type cfg = QUAGMIRE_3 then
                (case perturbate_keyword rm P 26 pkl (r 0) (r 1) (r 2) of
                   Inl e \<Rightarrow> Inl e
                 | Inr P' \<Rightarrow> Inr (P', P', W, rand_tail 3 r))
              else if arg_cipher_type cfg = QUAGMIRE_4 then
                (if frand rm (r 0) < 1 / 2 then
                   (case perturbate_keyword rm P 26 pkl (r 1) (r 2) (r 3) of
                      Inl e \<Rightarrow> Inl e
                    | Inr P' \<Rightarrow> Inr (P', C, W, rand_tail 4 r))
                 else
                   (case perturbate_keyword rm C 26 ckl (r 1) (r 2) (r 3) of
                      Inl e \<Rightarrow> Inl e
                    | Inr C' \<Rightarrow> Inr (P, C', W, rand_tail 4 r)))
              else Inr (P, C, W, r))
         | (False, r) \<Rightarrow>
             (case perturbate_cycleword W (effective_cycleword_len cfg t) r of
                Inl e \<Rightarrow> Inl e
              | Inr (W', r') \<Rightarrow> Inr (P, C, W', r')))"

text \<open>
  For the Quagmire kinds, \<^verbatim>\<open>perturbate_keyword_p = false\<close>, then the call of
  \<^verbatim>\<open>constrain_cycleword\<close>, and with a contradiction \<^verbatim>\<open>n_contradictions += 1\<close> and
  \<^verbatim>\<open>perturbate_keyword_p = true\<close>.  The result is the flag, the cycleword and the counter.
\<close>

definition constrain_candidate ::
  "config \<Rightarrow> task \<Rightarrow> search_state \<Rightarrow> int list \<Rightarrow> int list \<Rightarrow> int list \<Rightarrow>
   fault + bool \<times> int list \<times> int" where
  "constrain_candidate cfg t st P C W =
     (if arg_cipher_type cfg \<noteq> VIGENERE \<and> arg_cipher_type cfg \<noteq> BEAUFORT then
        (case constrain_cycleword (task_inactive t) (task_cipher_indices t) (task_cribs t)
                P C W (arg_variant cfg) of
           Inl e \<Rightarrow> Inl e
         | Inr (contradiction, W') \<Rightarrow>
             Inr (contradiction, W',
                  if contradiction then n_contradictions st + 1 else n_contradictions st))
      else Inr (perturbate_keyword_p st, W, n_contradictions st))"

text \<open>
  One iteration of the inner loop: candidate, constraint, score, then acceptance (a
  better score, or a slip with \<^verbatim>\<open>frand() < slip_probability\<close>) and the update of the best
  state.  The second component tells whether the best state was updated.
\<close>

definition iteration :: "config \<Rightarrow> task \<Rightarrow> search_state \<Rightarrow> fault + search_state \<times> bool" where
  "iteration cfg t st =
     (case perturbate_candidate cfg t st of
        Inl e \<Rightarrow> Inl e
      | Inr (P, C, W, r) \<Rightarrow>
     (case constrain_candidate cfg t st P C W of
        Inl e \<Rightarrow> Inl e
      | Inr (must_perturb, W', contradictions) \<Rightarrow>
     (case score_of cfg t P C W' of
        Inl e \<Rightarrow> Inl e
      | Inr local_score \<Rightarrow>
          (let st1 = st\<lparr>n_iterations := n_iterations st + 1,
                        perturbate_keyword_p := must_perturb,
                        n_contradictions := contradictions\<rparr>;
               st2 =
                 (if current_score st < local_score then
                    st1\<lparr>current_score := local_score,
                        current_plaintext_keyword_state := P,
                        current_ciphertext_keyword_state := C,
                        current_cycleword_state := W', rng := r\<rparr>
                  else if frand (task_rand_max t) (r 0) < arg_slip_probability cfg then
                    st1\<lparr>n_explore := n_explore st + 1, current_score := local_score,
                        current_plaintext_keyword_state := P,
                        current_ciphertext_keyword_state := C,
                        current_cycleword_state := W', rng := rand_tail 1 r\<rparr>
                  else st1\<lparr>rng := rand_tail 1 r\<rparr>)
           in if best_score st2 < current_score st2 then
                Inr (st2\<lparr>best_score := current_score st2,
                         best_state := Some (current_plaintext_keyword_state st2,
                                             current_ciphertext_keyword_state st2,
                                             current_cycleword_state st2)\<rparr>, True)
              else Inr (st2, False)))))"

text \<open>
  The inner loop \<^verbatim>\<open>for (i = 0; i < n_hill_climbs; i++)\<close>.  With \<^verbatim>\<open>verbose\<close>, the display of
  a new best state runs its own loop \<^verbatim>\<open>for (i = 0; i < cycleword_len; i++)\<close> on the same
  variable, so that the counter continues from \<^verbatim>\<open>cycleword_len\<close>; the loop is therefore
  not bounded by \<^verbatim>\<open>n_hill_climbs\<close> iterations, and not returning is \<open>None\<close>.  The outer
  loop runs \<^verbatim>\<open>n_restarts\<close> times, and the function returns the best score, the text
  transformed with the best state, and the best state.
\<close>

partial_function (option) hill_climb_loop ::
  "config \<Rightarrow> task \<Rightarrow> nat \<Rightarrow> search_state \<Rightarrow> (fault + search_state) option" where
  "hill_climb_loop cfg t i st =
     (if int i < arg_n_hill_climbs cfg then
        (case iteration cfg t st of
           Inl e \<Rightarrow> Some (Inl e)
         | Inr (st', improved) \<Rightarrow>
             hill_climb_loop cfg t
               (Suc (if improved \<and> arg_verbose cfg then effective_cycleword_len cfg t else i)) st')
      else Some (Inr st))"

fun restart_loop :: "config \<Rightarrow> task \<Rightarrow> nat \<Rightarrow> search_state \<Rightarrow> (fault + search_state) option" where
  "restart_loop cfg t 0 st = Some (Inr st)"
| "restart_loop cfg t (Suc n) st =
     (case restart_begin cfg t st of
        None \<Rightarrow> None
      | Some (Inl e) \<Rightarrow> Some (Inl e)
      | Some (Inr st1) \<Rightarrow>
          (case hill_climb_loop cfg t 0 st1 of
             None \<Rightarrow> None
           | Some (Inl e) \<Rightarrow> Some (Inl e)
           | Some (Inr st2) \<Rightarrow> restart_loop cfg t n st2))"

definition quagmire_shotgun_hill_climber ::
  "config \<Rightarrow> task \<Rightarrow> (nat \<Rightarrow> int) \<Rightarrow>
   (fault + real \<times> int list \<times> int list \<times> int list \<times> int list) option" where
  "quagmire_shotgun_hill_climber cfg t rng0 =
     (case restart_loop cfg t (nat (arg_n_restarts cfg)) (initial_search_state rng0) of
        None \<Rightarrow> None
      | Some (Inl e) \<Rightarrow> Some (Inl e)
      | Some (Inr st) \<Rightarrow>
          (case best_state st of
             None \<Rightarrow> Some (Inl UnsetVariable)
           | Some (P, C, W) \<Rightarrow>
               (case (if arg_variant cfg
                      then quagmire_encrypt (task_cipher_indices t) P C W (task_beaufort t)
                      else quagmire_decrypt (task_cipher_indices t) P C W (task_beaufort t)) of
                  Inl e \<Rightarrow> Some (Inl e)
                | Inr decrypted \<Rightarrow> Some (Inr (best_score st, decrypted, P, C, W)))))"

text \<open>
  The states at the head of an iteration, over all runs: the state after the head of the
  first restart, after the head of a later restart, and after an iteration.
\<close>

inductive reached :: "config \<Rightarrow> task \<Rightarrow> search_state \<Rightarrow> bool" for cfg t where
  first_restart:
    "restart_begin cfg t (initial_search_state rng0) = Some (Inr st) \<Longrightarrow> reached cfg t st"
| next_restart:
    "reached cfg t st \<Longrightarrow> restart_begin cfg t st = Some (Inr st') \<Longrightarrow> reached cfg t st'"
| next_iteration:
    "reached cfg t st \<Longrightarrow> iteration cfg t st = Inr (st', improved) \<Longrightarrow> reached cfg t st'"

text \<open>
  Both current keywords are the straight alphabet; the best state, once there is one, has
  straight keywords.
\<close>

definition keywords_straight :: "search_state \<Rightarrow> bool" where
  "keywords_straight st =
     (current_plaintext_keyword_state st = straight_alphabet 26 \<and>
      current_ciphertext_keyword_state st = straight_alphabet 26)"

definition best_straight :: "search_state \<Rightarrow> bool" where
  "best_straight st =
     (case best_state st of
        None \<Rightarrow> True
      | Some (P, C, W) \<Rightarrow> P = straight_alphabet 26 \<and> C = straight_alphabet 26)"

text \<open>
  A run to evaluate: the ciphertext HELLO with the cribs W at 0 and D at 4, period 3,
  keywords of length 1, a constant bigram table, and a generator whose every value is
  \<open>RAND_MAX = 2147483647\<close>; the default options with bigrams, for Quagmire III, and for
  Beaufort with one restart of one iteration.
\<close>

definition example_task :: task where
  "example_task = \<lparr>
     task_cipher_indices = [7, 4, 11, 11, 14], task_cribs = [(0, 22), (4, 3)],
     task_cycleword_len = 3, task_plaintext_keyword_len = 1, task_ciphertext_keyword_len = 1,
     task_ngram_data = (\<lambda>x. 1 / 676), task_beaufort = False,
     task_rand_max = 2147483647, task_inactive = - 1 \<rparr>"

definition quagmire3_config :: config where
  "quagmire3_config = initial_config\<lparr>arg_ngram_size := 2\<rparr>"

definition beaufort_config :: config where
  "beaufort_config = initial_config\<lparr>arg_cipher_type := 5, arg_ngram_size := 2,
     arg_n_restarts := 1, arg_n_hill_climbs := 1\<rparr>"

definition beaufort_task :: task where
  "beaufort_task = example_task\<lparr>task_beaufort := True\<rparr>"

text \<open>
  The flag after the head of the first restart, and whether the move chosen by the first
  iteration is a keyword perturbation.
\<close>

definition first_move :: "config \<Rightarrow> task \<Rightarrow> (nat \<Rightarrow> int) \<Rightarrow> (bool \<times> bool) option" where
  "first_move cfg t rng0 =
     (case restart_begin cfg t (initial_search_state rng0) of
        Some (Inr st) \<Rightarrow>
          Some (perturbate_keyword_p st,
                fst (choose_keyword_move (arg_cipher_type cfg) (perturbate_keyword_p st)
                       (arg_keyword_permutation_probability cfg) (task_rand_max t) (rng st)))
      | _ \<Rightarrow> None)"

definition keyword_X :: "int list" where
  "keyword_X = [23, 0, 1, 2, 3, 4, 5, 6, 7, 8, 9, 10, 11, 12, 13, 14, 15, 16, 17, 18, 19, 20,
     21, 22, 24, 25]"

definition keyword_W :: "int list" where
  "keyword_W = [22, 0, 1, 2, 3, 4, 5, 6, 7, 8, 9, 10, 11, 12, 13, 14, 15, 16, 17, 18, 19, 20,
     21, 23, 24, 25]"

text \<open>The state after the head of the first restart of these runs, with keywords \<open>K\<close> and
  score \<open>s\<close>.\<close>

definition started :: "int list \<Rightarrow> real \<Rightarrow> search_state" where
  "started K s = \<lparr>
     current_plaintext_keyword_state = K, current_ciphertext_keyword_state = K,
     current_cycleword_state = [23, 23, 23], current_score = s, best_state = None,
     best_score = 0, perturbate_keyword_p = True, n_iterations = 0, n_backtracks = 0,
     n_explore = 0, n_contradictions = 0, rng = (\<lambda>n. 2147483647)\<rparr>"

subsection \<open>The period estimator \<^verbatim>\<open>estimate_cycleword_lengths\<close>\<close>

text \<open>
  \<^verbatim>\<open>mean_ioc\<close>: for every \<^verbatim>\<open>k < len_cycleword\<close> the loop
  \<^verbatim>\<open>while (len_cycleword*i + k < len)\<close> copies the column \<open>k\<close> of the text, and the indices
  of coincidence of the columns are summed and divided by \<^verbatim>\<open>len_cycleword\<close>.  The function
  is called with \<^verbatim>\<open>len_cycleword\<close> from 1 on; the test \<open>0 < len_cycleword\<close> of the model
  only makes the recursion total.  As in the fitness function, the arithmetic of
  \<^verbatim>\<open>double\<close> and \<^verbatim>\<open>float\<close> is exact arithmetic on the reals, and a division by zero, which
  gives a NaN or an infinity in C, is the fault \<open>NonFinite\<close>.
\<close>

function caesar_column_from :: "int list \<Rightarrow> nat \<Rightarrow> nat \<Rightarrow> nat \<Rightarrow> int list" where
  "caesar_column_from text_indices len_cycleword k i =
     (if 0 < len_cycleword \<and> len_cycleword * i + k < length text_indices
      then text_indices ! (len_cycleword * i + k)
             # caesar_column_from text_indices len_cycleword k (Suc i)
      else [])"
  by pat_completeness auto
termination
  by (relation "measure (\<lambda>(text_indices, len_cycleword, k, i).
        length text_indices - (len_cycleword * i + k))") auto

declare caesar_column_from.simps [simp del]

fun weighted_ioc :: "int list \<Rightarrow> nat \<Rightarrow> nat list \<Rightarrow> real \<Rightarrow> fault + real" where
  "weighted_ioc text_indices len_cycleword [] w = Inr w"
| "weighted_ioc text_indices len_cycleword (k # ks) w =
     (case index_of_coincidence (caesar_column_from text_indices len_cycleword k 0) of
        Inl e \<Rightarrow> Inl e
      | Inr c \<Rightarrow> weighted_ioc text_indices len_cycleword ks (w + c))"

definition mean_ioc :: "int list \<Rightarrow> nat \<Rightarrow> fault + real" where
  "mean_ioc text_indices len_cycleword =
     (case weighted_ioc text_indices len_cycleword [0..<len_cycleword] 0 of
        Inl e \<Rightarrow> Inl e
      | Inr w \<Rightarrow> if len_cycleword = 0 then Inl NonFinite else Inr (w / real len_cycleword))"

text \<open>\<^verbatim>\<open>vec_mean\<close> and \<^verbatim>\<open>vec_stddev\<close>: \<^verbatim>\<open>total/len\<close> and \<^verbatim>\<open>sqrt(sumdev/len)\<close>, where
  \<^verbatim>\<open>sumdev\<close> is the sum of \<^verbatim>\<open>pow(vec[i] - mu, 2)\<close>.\<close>

definition vec_mean :: "real list \<Rightarrow> fault + real" where
  "vec_mean vec =
     (if length vec = 0 then Inl NonFinite
      else Inr (foldl (\<lambda>tot v. tot + v) 0 vec / real (length vec)))"

definition vec_stddev :: "real list \<Rightarrow> fault + real" where
  "vec_stddev vec =
     (case vec_mean vec of
        Inl e \<Rightarrow> Inl e
      | Inr mu \<Rightarrow>
          Inr (sqrt (foldl (\<lambda>sumdev v. sumdev + (v - mu)\<^sup>2) 0 vec / real (length vec))))"

text \<open>\<^verbatim>\<open>mu_ioc[i - 1] = mean_ioc(text, len, i, caesar_column)\<close> for the candidate lengths, and
  \<^verbatim>\<open>mu_ioc_normalised[i] = (mu_ioc[i] - mu)/std\<close>.\<close>

fun mean_iocs :: "int list \<Rightarrow> nat list \<Rightarrow> fault + real list" where
  "mean_iocs text_indices [] = Inr []"
| "mean_iocs text_indices (i # is) =
     (case mean_ioc text_indices i of
        Inl e \<Rightarrow> Inl e
      | Inr m \<Rightarrow>
          (case mean_iocs text_indices is of
             Inl e \<Rightarrow> Inl e
           | Inr ms \<Rightarrow> Inr (m # ms)))"

definition normalise :: "real list \<Rightarrow> real \<Rightarrow> real \<Rightarrow> fault + real list" where
  "normalise mu_ioc mu std =
     (if std = 0 then Inl NonFinite else Inr (map (\<lambda>m. (m - mu) / std) mu_ioc))"

text \<open>
  The selection.  The inner loop over \<open>j\<close> starts from \<^verbatim>\<open>threshold = false\<close> and
  \<^verbatim>\<open>max_ioc = 0.\<close>; an index that passes the four strict comparisons sets \<^verbatim>\<open>threshold\<close>,
  \<^verbatim>\<open>max_ioc\<close> and \<^verbatim>\<open>cycleword_lengths[i] = j + 1\<close>.  The outer loop over \<open>i\<close> starts from
  \<^verbatim>\<open>current_ioc = 1.e6\<close>, sets \<^verbatim>\<open>current_ioc = max_ioc\<close> after the inner loop and counts the
  rounds with \<^verbatim>\<open>threshold\<close>.  The array of the caller is uninitialised (\<open>None\<close>) at first.
\<close>

fun select_scan ::
  "real list \<Rightarrow> real list \<Rightarrow> real \<Rightarrow> real \<Rightarrow> real \<Rightarrow> nat list \<Rightarrow>
   bool \<times> real \<times> int option \<Rightarrow> bool \<times> real \<times> int option" where
  "select_scan mu_ioc_normalised mu_ioc n_sigma_threshold ioc_threshold current_ioc []
     (threshold, max_ioc, slot) = (threshold, max_ioc, slot)"
| "select_scan mu_ioc_normalised mu_ioc n_sigma_threshold ioc_threshold current_ioc (j # js)
     (threshold, max_ioc, slot) =
     select_scan mu_ioc_normalised mu_ioc n_sigma_threshold ioc_threshold current_ioc js
       (if mu_ioc_normalised ! j > n_sigma_threshold \<and> mu_ioc ! j > ioc_threshold \<and>
           mu_ioc_normalised ! j > max_ioc \<and> mu_ioc_normalised ! j < current_ioc
        then (True, mu_ioc_normalised ! j, Some (int j + 1))
        else (threshold, max_ioc, slot))"

fun select_lengths ::
  "real list \<Rightarrow> real list \<Rightarrow> real \<Rightarrow> real \<Rightarrow> nat \<Rightarrow> nat list \<Rightarrow> real \<Rightarrow> int \<Rightarrow>
   int option list \<Rightarrow> int \<times> int option list" where
  "select_lengths mu_ioc_normalised mu_ioc n_sigma_threshold ioc_threshold max_cycleword_len []
     current_ioc n_cycleword_lengths cycleword_lengths = (n_cycleword_lengths, cycleword_lengths)"
| "select_lengths mu_ioc_normalised mu_ioc n_sigma_threshold ioc_threshold max_cycleword_len (i # is)
     current_ioc n_cycleword_lengths cycleword_lengths =
     (case select_scan mu_ioc_normalised mu_ioc n_sigma_threshold ioc_threshold current_ioc
             [0..<max_cycleword_len] (False, 0, cycleword_lengths ! i) of
        (threshold, max_ioc, slot) \<Rightarrow>
          select_lengths mu_ioc_normalised mu_ioc n_sigma_threshold ioc_threshold max_cycleword_len is
            max_ioc (if threshold then n_cycleword_lengths + 1 else n_cycleword_lengths)
            (cycleword_lengths[i := slot]))"

text \<open>
  \<^verbatim>\<open>estimate_cycleword_lengths\<close> returns the count \<^verbatim>\<open>*n_cycleword_lengths\<close> and the array
  \<^verbatim>\<open>cycleword_lengths\<close>, of which the caller reads the first \<^verbatim>\<open>n_cycleword_lengths\<close> entries.
  The scores weighted by English word lengths, which the function computes afterwards, are
  not used for the result and are left out, as is the output for \<^verbatim>\<open>verbose\<close>.
\<close>

definition estimate_cycleword_lengths ::
  "int list \<Rightarrow> nat \<Rightarrow> real \<Rightarrow> real \<Rightarrow> fault + int \<times> int option list" where
  "estimate_cycleword_lengths text_indices max_cycleword_len n_sigma_threshold ioc_threshold =
     (case mean_iocs text_indices [1..<Suc max_cycleword_len] of
        Inl e \<Rightarrow> Inl e
      | Inr mu_ioc \<Rightarrow>
     (case vec_mean mu_ioc of
        Inl e \<Rightarrow> Inl e
      | Inr mu \<Rightarrow>
     (case vec_stddev mu_ioc of
        Inl e \<Rightarrow> Inl e
      | Inr std \<Rightarrow>
     (case normalise mu_ioc mu std of
        Inl e \<Rightarrow> Inl e
      | Inr mu_ioc_normalised \<Rightarrow>
          Inr (select_lengths mu_ioc_normalised mu_ioc n_sigma_threshold ioc_threshold
                 max_cycleword_len [0..<max_cycleword_len] 1000000 0
                 (replicate max_cycleword_len None))))))"

text \<open>The text ABAABCABACBA, whose mean column indices of coincidence for the periods 3
  and 6 are both \<open>2 / 3\<close>.\<close>

definition tied_text :: "int list" where
  "tied_text = [0, 1, 0, 0, 1, 2, 0, 1, 0, 2, 1, 0]"

text \<open>
  The condition of acceptance of the index \<open>j\<close> (the period \<open>j + 1\<close>), and the state of the
  inner loop of the selection after the indices in \<open>J\<close>: with \<^verbatim>\<open>threshold\<close>, the slot holds
  an accepted period of \<open>J\<close> whose z-score is \<^verbatim>\<open>max_ioc\<close>, positive and below
  \<^verbatim>\<open>current_ioc\<close>; without, nothing has changed.
\<close>

definition accepted :: "real list \<Rightarrow> real list \<Rightarrow> real \<Rightarrow> real \<Rightarrow> nat \<Rightarrow> bool" where
  "accepted mu_ioc_normalised mu_ioc n_sigma_threshold ioc_threshold j =
     (mu_ioc_normalised ! j > n_sigma_threshold \<and> mu_ioc ! j > ioc_threshold)"

definition scan_state ::
  "real list \<Rightarrow> real list \<Rightarrow> real \<Rightarrow> real \<Rightarrow> real \<Rightarrow> nat set \<Rightarrow> int option \<Rightarrow>
   bool \<times> real \<times> int option \<Rightarrow> bool" where
  "scan_state zs ms ns thr cur J slot0 acc =
     (case acc of (threshold, max_ioc, slot) \<Rightarrow>
        if threshold
        then \<exists>j\<in>J. slot = Some (int j + 1) \<and> accepted zs ms ns thr j \<and> max_ioc = zs ! j \<and>
               0 < max_ioc \<and> max_ioc < cur
        else max_ioc = 0 \<and> slot = slot0)"

text \<open>
  The z-score of the period in a slot, and the property of the first \<open>n\<close> slots: each
  holds an accepted period with a positive z-score, and the z-scores decrease strictly.
\<close>

definition z_of :: "real list \<Rightarrow> int option \<Rightarrow> real" where
  "z_of zs slot = (case slot of None \<Rightarrow> 0 | Some p \<Rightarrow> zs ! nat (p - 1))"

definition selected ::
  "real list \<Rightarrow> real list \<Rightarrow> real \<Rightarrow> real \<Rightarrow> nat \<Rightarrow> nat \<Rightarrow> int option list \<Rightarrow> bool" where
  "selected zs ms ns thr m n lengths =
     ((\<forall>k<n. \<exists>j<m. lengths ! k = Some (int j + 1) \<and> accepted zs ms ns thr j \<and> 0 < zs ! j) \<and>
      (\<forall>k<n. \<forall>k'<k. z_of zs (lengths ! k) < z_of zs (lengths ! k')))"

section \<open>Proofs\<close>

subsection \<open>C arithmetic\<close>

lemma wrap_index_mod: "wrap_index v = v mod 26"
proof -
  have e: "v smod 26 = v mod 26 - 26 * of_bool (sgn v \<noteq> sgn (26::int) \<and> \<not> 26 dvd v)"
    by (rule signed_modulo_int_eq_modulo_int)
  have r: "0 \<le> v mod 26" "v mod 26 < 26" by simp_all
  show ?thesis
  proof (cases "sgn v \<noteq> sgn (26::int) \<and> \<not> 26 dvd v")
    case True
    then have "v smod 26 = v mod 26 - 26" using e by simp
    then show ?thesis using r by (simp add: wrap_index_def Let_def)
  next
    case False
    then have "v smod 26 = v mod 26" using e by simp
    then show ?thesis using r by (simp add: wrap_index_def Let_def)
  qed
qed

lemma wrap_index_range: "0 \<le> wrap_index v" "wrap_index v < 26"
  by (simp_all add: wrap_index_mod)


subsection \<open>The linear search\<close>

lemma find_from_Some_iff:
  "find_from kw x j = Some p \<longleftrightarrow> j \<le> p \<and> p < 26 \<and> kw ! p = x \<and> (\<forall>q. j \<le> q \<and> q < p \<longrightarrow> kw ! q \<noteq> x)"
proof (induction kw x j rule: find_from.induct)
  case (1 kw x j)
  show ?case
  proof (cases "j < 26")
    case False
    then show ?thesis by (subst find_from.simps) auto
  next
    case lt: True
    show ?thesis
    proof (cases "kw ! j = x")
      case True
      then show ?thesis using lt
        by (subst find_from.simps) (auto simp: le_less)
    next
      case False
      have "find_from kw x j = find_from kw x (Suc j)"
        using lt False by (subst find_from.simps) simp
      also have "\<dots> = Some p \<longleftrightarrow> Suc j \<le> p \<and> p < 26 \<and> kw ! p = x \<and> (\<forall>q. Suc j \<le> q \<and> q < p \<longrightarrow> kw ! q \<noteq> x)"
        using 1 lt False by simp
      finally show ?thesis using False
        by (metis Suc_leD Suc_leI le_neq_implies_less)
    qed
  qed
qed

lemma keyword_perm_set: "keyword_perm K \<Longrightarrow> set K = {0..<26}"
proof -
  assume k: "keyword_perm K"
  then have sub: "set K \<subseteq> {0..<26::int}"
    by (auto simp: keyword_perm_def symbol_def list_all_iff)
  have "card (set K) = 26" using k by (simp add: keyword_perm_def distinct_card)
  then have "card (set K) = card {0..<26::int}" by simp
  then show ?thesis using sub by (simp add: card_subset_eq)
qed

lemma find_from_at:
  assumes "keyword_perm K" "j < 26"
  shows "find_from K (K ! j) 0 = Some j"
proof -
  have "\<forall>q. q < j \<longrightarrow> K ! q \<noteq> K ! j"
    using assms by (auto simp: keyword_perm_def nth_eq_iff_index_eq)
  then show ?thesis using assms by (simp add: find_from_Some_iff)
qed

lemma find_from_total:
  assumes "keyword_perm K" "symbol x"
  shows "\<exists>j<26. find_from K x 0 = Some j \<and> K ! j = x"
proof -
  have "x \<in> set K" using assms keyword_perm_set by (simp add: symbol_def)
  then obtain j where j: "j < length K" "K ! j = x" by (auto simp: in_set_conv_nth)
  then have "j < 26" using assms by (simp add: keyword_perm_def)
  then show ?thesis using find_from_at[OF assms(1), of j] j by blast
qed

lemma keyword_perm_nth: "keyword_perm K \<Longrightarrow> j < 26 \<Longrightarrow> symbol (K ! j)"
  by (simp add: keyword_perm_def list_all_length)

subsection \<open>The cipher transform\<close>

lemma symbol_atbash: "symbol x \<Longrightarrow> symbol (atbash_if b x)"
  by (auto simp: symbol_def atbash_if_def)

lemma cycleword_symbol:
  "valid_cycleword W \<Longrightarrow> symbol (W ! (i mod length W))"
  by (simp add: valid_cycleword_def list_all_length)

lemma wrap_index_nat_less: "nat (wrap_index v) < 26"
  using wrap_index_range[of v] by simp

lemma decrypt_from_Cons:
  assumes "W \<noteq> []"
    and "find_from C x 0 = Some jx"
    and "find_from C (atbash_if b (W ! (i mod length W))) 0 = Some jw"
  shows "decrypt_from P C W b i pk pc (x # xs) =
     (case decrypt_from P C W b (Suc i) (Some jx) (Some jw) xs of
        Inl e \<Rightarrow> Inl e
      | Inr ds \<Rightarrow> Inr (atbash_if b (P ! nat (wrap_index (int jx - int jw))) # ds))"
  using assms by (simp add: assign_posn_def Let_def del: find_from.simps)

lemma encrypt_from_Cons:
  assumes "W \<noteq> []"
    and "find_from P x 0 = Some jx"
    and "find_from C (atbash_if b (W ! (i mod length W))) 0 = Some jw"
  shows "encrypt_from P C W b i pk pc (x # xs) =
     (case encrypt_from P C W b (Suc i) (Some jx) (Some jw) xs of
        Inl e \<Rightarrow> Inl e
      | Inr es \<Rightarrow> Inr (atbash_if b (C ! nat (wrap_index (int jx + int jw))) # es))"
  using assms by (simp add: assign_posn_def Let_def del: find_from.simps)

declare decrypt_from.simps(2) [simp del] encrypt_from.simps(2) [simp del]

lemma decrypt_from_total:
  assumes "keyword_perm P" "keyword_perm C" "valid_cycleword W"
  shows "valid_text xs \<Longrightarrow>
    \<exists>D. decrypt_from P C W b i pk pc xs = Inr D \<and> length D = length xs \<and> list_all symbol D"
proof (induction xs arbitrary: i pk pc)
  case Nil
  then show ?case by simp
next
  case (Cons x xs)
  have W: "W \<noteq> []" using assms(3) by (simp add: valid_cycleword_def)
  have x: "symbol x" and xs: "valid_text xs" using Cons.prems by (simp_all add: valid_text_def)
  obtain jx where jx: "jx < 26" "find_from C x 0 = Some jx"
    using find_from_total[OF assms(2) x] by blast
  obtain jw where jw: "jw < 26" "find_from C (atbash_if b (W ! (i mod length W))) 0 = Some jw"
    using find_from_total[OF assms(2) symbol_atbash[OF cycleword_symbol[OF assms(3)]]] by blast
  obtain D where D: "decrypt_from P C W b (Suc i) (Some jx) (Some jw) xs = Inr D"
      "length D = length xs" "list_all symbol D"
    using Cons.IH[OF xs] by blast
  have "symbol (atbash_if b (P ! nat (wrap_index (int jx - int jw))))"
    by (rule symbol_atbash[OF keyword_perm_nth[OF assms(1) wrap_index_nat_less]])
  then show ?case
    using D by (simp add: decrypt_from_Cons[OF W jx(2) jw(2)])
qed

lemma encrypt_from_total:
  assumes "keyword_perm P" "keyword_perm C" "valid_cycleword W"
  shows "valid_text xs \<Longrightarrow>
    \<exists>E. encrypt_from P C W b i pk pc xs = Inr E \<and> length E = length xs \<and> list_all symbol E"
proof (induction xs arbitrary: i pk pc)
  case Nil
  then show ?case by simp
next
  case (Cons x xs)
  have W: "W \<noteq> []" using assms(3) by (simp add: valid_cycleword_def)
  have x: "symbol x" and xs: "valid_text xs" using Cons.prems by (simp_all add: valid_text_def)
  obtain jx where jx: "jx < 26" "find_from P x 0 = Some jx"
    using find_from_total[OF assms(1) x] by blast
  obtain jw where jw: "jw < 26" "find_from C (atbash_if b (W ! (i mod length W))) 0 = Some jw"
    using find_from_total[OF assms(2) symbol_atbash[OF cycleword_symbol[OF assms(3)]]] by blast
  obtain E where E: "encrypt_from P C W b (Suc i) (Some jx) (Some jw) xs = Inr E"
      "length E = length xs" "list_all symbol E"
    using Cons.IH[OF xs] by blast
  have "symbol (atbash_if b (C ! nat (wrap_index (int jx + int jw))))"
    by (rule symbol_atbash[OF keyword_perm_nth[OF assms(2) wrap_index_nat_less]])
  then show ?case
    using E by (simp add: encrypt_from_Cons[OF W jx(2) jw(2)])
qed

lemma wrap_sub_add: "jx < 26 \<Longrightarrow> wrap_index (wrap_index (int jx + int jw) - int jw) = int jx"
  by (simp add: wrap_index_mod mod_diff_left_eq)

lemma wrap_add_sub: "jx < 26 \<Longrightarrow> wrap_index (wrap_index (int jx - int jw) + int jw) = int jx"
  by (simp add: wrap_index_mod mod_add_left_eq)

lemma decrypt_encrypt_from:
  assumes "keyword_perm P" "keyword_perm C" "valid_cycleword W"
  shows "valid_text M \<Longrightarrow> encrypt_from P C W False i pk pc M = Inr E \<Longrightarrow>
     decrypt_from P C W False i pk' pc' E = Inr M"
proof (induction M arbitrary: i pk pc pk' pc' E)
  case Nil
  then show ?case by simp
next
  case (Cons x xs)
  have W: "W \<noteq> []" using assms(3) by (simp add: valid_cycleword_def)
  have x: "symbol x" and xs: "valid_text xs" using Cons.prems by (simp_all add: valid_text_def)
  obtain jx where jx: "jx < 26" "find_from P x 0 = Some jx" "P ! jx = x"
    using find_from_total[OF assms(1) x] by blast
  obtain jw where jw: "jw < 26" "find_from C (atbash_if False (W ! (i mod length W))) 0 = Some jw"
    using find_from_total[OF assms(2) symbol_atbash[OF cycleword_symbol[OF assms(3)]]] by blast
  obtain E' where E': "encrypt_from P C W False (Suc i) (Some jx) (Some jw) xs = Inr E'"
    using encrypt_from_total[OF assms xs] by blast
  let ?k = "nat (wrap_index (int jx + int jw))"
  have E: "E = C ! ?k # E'"
    using Cons.prems(2) E' by (simp add: encrypt_from_Cons[OF W jx(2) jw(2)] atbash_if_def)
  have fk: "find_from C (C ! ?k) 0 = Some ?k"
    by (rule find_from_at[OF assms(2) wrap_index_nat_less])
  have rest: "decrypt_from P C W False (Suc i) (Some ?k) (Some jw) E' = Inr xs"
    by (rule Cons.IH[OF xs E'])
  show ?case
    unfolding E using rest jx
    by (simp add: decrypt_from_Cons[OF W fk jw(2)] wrap_sub_add wrap_index_range atbash_if_def)
qed

lemma encrypt_decrypt_from:
  assumes "keyword_perm P" "keyword_perm C" "valid_cycleword W"
  shows "valid_text M \<Longrightarrow> decrypt_from P C W False i pk pc M = Inr D \<Longrightarrow>
     encrypt_from P C W False i pk' pc' D = Inr M"
proof (induction M arbitrary: i pk pc pk' pc' D)
  case Nil
  then show ?case by simp
next
  case (Cons x xs)
  have W: "W \<noteq> []" using assms(3) by (simp add: valid_cycleword_def)
  have x: "symbol x" and xs: "valid_text xs" using Cons.prems by (simp_all add: valid_text_def)
  obtain jx where jx: "jx < 26" "find_from C x 0 = Some jx" "C ! jx = x"
    using find_from_total[OF assms(2) x] by blast
  obtain jw where jw: "jw < 26" "find_from C (atbash_if False (W ! (i mod length W))) 0 = Some jw"
    using find_from_total[OF assms(2) symbol_atbash[OF cycleword_symbol[OF assms(3)]]] by blast
  obtain D' where D': "decrypt_from P C W False (Suc i) (Some jx) (Some jw) xs = Inr D'"
    using decrypt_from_total[OF assms xs] by blast
  let ?k = "nat (wrap_index (int jx - int jw))"
  have D: "D = P ! ?k # D'"
    using Cons.prems(2) D' by (simp add: decrypt_from_Cons[OF W jx(2) jw(2)] atbash_if_def)
  have fk: "find_from P (P ! ?k) 0 = Some ?k"
    by (rule find_from_at[OF assms(1) wrap_index_nat_less])
  have rest: "encrypt_from P C W False (Suc i) (Some ?k) (Some jw) D' = Inr xs"
    by (rule Cons.IH[OF xs D'])
  show ?case
    unfolding D using rest jx
    by (simp add: encrypt_from_Cons[OF W fk jw(2)] wrap_add_sub wrap_index_range atbash_if_def)
qed

text \<open>
  C10.  With keyword arrays that are permutations of \<open>[0, 26)\<close>, a non-empty cycleword and
  a text whose symbols all lie in \<open>[0, 26)\<close>, every linear search of
  \<^verbatim>\<open>quagmire_decrypt\<close> and \<^verbatim>\<open>quagmire_encrypt\<close> finds its target (it never falls
  through, so the position variables are always assigned), both transforms return a text,
  and every symbol of that text lies in \<open>[0, 26)\<close> again.  This holds with and without
  the Beaufort flag.
\<close>

theorem quagmire_searches_succeed:
  assumes "keyword_perm P" and "keyword_perm C" and "valid_cycleword W" and "valid_text M"
  shows "(\<forall>i<length M.
            find_from C (M ! i) 0 \<noteq> None \<and> find_from P (M ! i) 0 \<noteq> None \<and>
            find_from C (atbash_if b (W ! (i mod length W))) 0 \<noteq> None) \<and>
         (\<exists>D. quagmire_decrypt M P C W b = Inr D \<and> length D = length M \<and> list_all symbol D) \<and>
         (\<exists>E. quagmire_encrypt M P C W b = Inr E \<and> length E = length M \<and> list_all symbol E)"
proof -
  have len: "length P = 26" "length C = 26"
    using assms(1,2) by (simp_all add: keyword_perm_def)
  have "find_from C (M ! i) 0 \<noteq> None \<and> find_from P (M ! i) 0 \<noteq> None \<and>
        find_from C (atbash_if b (W ! (i mod length W))) 0 \<noteq> None" if "i < length M" for i
  proof -
    have x: "symbol (M ! i)" using assms(4) that by (simp add: valid_text_def list_all_length)
    show ?thesis
      using find_from_total[OF assms(2) x] find_from_total[OF assms(1) x]
        find_from_total[OF assms(2) symbol_atbash[OF cycleword_symbol[OF assms(3)]], of b i]
      by auto
  qed
  moreover have "\<exists>D. quagmire_decrypt M P C W b = Inr D \<and> length D = length M \<and> list_all symbol D"
    using decrypt_from_total[OF assms] len by (simp add: quagmire_decrypt_def)
  moreover have "\<exists>E. quagmire_encrypt M P C W b = Inr E \<and> length E = length M \<and> list_all symbol E"
    using encrypt_from_total[OF assms] len by (simp add: quagmire_encrypt_def)
  ultimately show ?thesis by blast
qed

theorem quagmire_searches_succeed_witness:
  "keyword_perm kryptos_alphabet \<and> keyword_perm (straight_alphabet 26) \<and>
   valid_cycleword [10, 14, 12] \<and> valid_text [7, 4, 11, 11, 14] \<and>
   quagmire_decrypt [7, 4, 11, 11, 14] kryptos_alphabet (straight_alphabet 26) [10, 14, 12] True
     = Inr [13, 12, 2, 4, 10] \<and>
   (\<exists>E. quagmire_encrypt [7, 4, 11, 11, 14] kryptos_alphabet (straight_alphabet 26) [10, 14, 12] True
     = Inr E \<and> length E = length [7, 4, 11, 11, 14 :: int] \<and> list_all symbol E)"
proof -
  have h1: "keyword_perm kryptos_alphabet" by code_simp
  have h2: "keyword_perm (straight_alphabet 26)" by code_simp
  have h3: "valid_cycleword [10, 14, 12]" by code_simp
  have h4: "valid_text [7, 4, 11, 11, 14]" by code_simp
  have d: "quagmire_decrypt [7, 4, 11, 11, 14] kryptos_alphabet (straight_alphabet 26) [10, 14, 12] True
     = Inr [13, 12, 2, 4, 10]" by code_simp
  show ?thesis
    using quagmire_searches_succeed[OF h1 h2 h3 h4, of True] h1 h2 h3 h4 d by blast
qed

text \<open>
  C1 (as amended).  Without the Beaufort flag, for every pair of keyword permutations, every
  non-empty cycleword with entries in \<open>[0, 26)\<close> and every text with entries in
  \<open>[0, 26)\<close>, of any length, decrypting the encryption gives the text back and
  encrypting the decryption gives the text back, both transforms using the same key.
\<close>

theorem quagmire_round_trip:
  assumes "keyword_perm P" and "keyword_perm C" and "valid_cycleword W" and "valid_text M"
  shows "(\<exists>E. quagmire_encrypt M P C W False = Inr E \<and> quagmire_decrypt E P C W False = Inr M) \<and>
         (\<exists>D. quagmire_decrypt M P C W False = Inr D \<and> quagmire_encrypt D P C W False = Inr M)"
proof -
  have len: "length P = 26" "length C = 26"
    using assms(1,2) by (simp_all add: keyword_perm_def)
  obtain E where E: "encrypt_from P C W False 0 None None M = Inr E"
    using encrypt_from_total[OF assms] by blast
  obtain D where D: "decrypt_from P C W False 0 None None M = Inr D"
    using decrypt_from_total[OF assms] by blast
  have "decrypt_from P C W False 0 None None E = Inr M"
    by (rule decrypt_encrypt_from[OF assms E])
  moreover have "encrypt_from P C W False 0 None None D = Inr M"
    by (rule encrypt_decrypt_from[OF assms D])
  ultimately show ?thesis
    using E D len by (simp add: quagmire_encrypt_def quagmire_decrypt_def)
qed

theorem quagmire_round_trip_witness:
  "keyword_perm kryptos_alphabet \<and> keyword_perm (straight_alphabet 26) \<and>
   valid_cycleword [10, 14, 12] \<and> valid_text [7, 4, 11, 11, 14] \<and>
   quagmire_encrypt [7, 4, 11, 11, 14] kryptos_alphabet (straight_alphabet 26) [10, 14, 12] False
     = Inr [24, 25, 3, 1, 19] \<and>
   quagmire_decrypt [24, 25, 3, 1, 19] kryptos_alphabet (straight_alphabet 26) [10, 14, 12] False
     = Inr [7, 4, 11, 11, 14] \<and>
   (\<exists>D. quagmire_decrypt [7, 4, 11, 11, 14] kryptos_alphabet (straight_alphabet 26) [10, 14, 12] False
          = Inr D \<and>
        quagmire_encrypt D kryptos_alphabet (straight_alphabet 26) [10, 14, 12] False
          = Inr [7, 4, 11, 11, 14])"
proof -
  have h1: "keyword_perm kryptos_alphabet" by code_simp
  have h2: "keyword_perm (straight_alphabet 26)" by code_simp
  have h3: "valid_cycleword [10, 14, 12]" by code_simp
  have h4: "valid_text [7, 4, 11, 11, 14]" by code_simp
  have e: "quagmire_encrypt [7, 4, 11, 11, 14] kryptos_alphabet (straight_alphabet 26) [10, 14, 12] False
     = Inr [24, 25, 3, 1, 19]" by code_simp
  show ?thesis
    using quagmire_round_trip[OF h1 h2 h3 h4] h1 h2 h3 h4 e by auto
qed

text \<open>
  With the Beaufort flag the round trip fails: under the straight alphabets and the
  cycleword \<open>A\<close>, the text \<open>A\<close> encrypts to \<open>A\<close>, and \<open>A\<close> decrypts to \<open>Y\<close>.
\<close>

theorem beaufort_round_trip_counterexample:
  "keyword_perm (straight_alphabet 26) \<and> valid_cycleword [0] \<and> valid_text [0] \<and>
   quagmire_encrypt [0] (straight_alphabet 26) (straight_alphabet 26) [0] True = Inr [0] \<and>
   quagmire_decrypt [0] (straight_alphabet 26) (straight_alphabet 26) [0] True = Inr [24]"
  by code_simp

subsection \<open>Command line\<close>

text \<open>
  C9.  Parsing \<^verbatim>\<open>-keywordpermprob F\<close> assigns the value of \<open>F\<close> to the backtracking
  probability and goes on with the remaining arguments; the keyword permutation
  probability keeps the value it had (so the flag alone yields the initial values with the
  backtracking probability replaced).
\<close>

theorem keywordpermprob_sets_backtracking:
  "parse_args atoi atof cfg (''-keywordpermprob'' # F # rest)
     = parse_args atoi atof (cfg\<lparr>arg_backtracking_probability := atof F\<rparr>) rest \<and>
   arg_backtracking_probability (cfg\<lparr>arg_backtracking_probability := atof F\<rparr>) = atof F \<and>
   arg_keyword_permutation_probability (cfg\<lparr>arg_backtracking_probability := atof F\<rparr>)
     = arg_keyword_permutation_probability cfg \<and>
   parse_args atoi atof initial_config [''-keywordpermprob'', F]
     = Inr (initial_config\<lparr>arg_backtracking_probability := atof F\<rparr>)"
  by (simp add: set_flag_def set_value_def)

subsection \<open>The keyword perturbation\<close>

lemma delete_loop_append:
  "delete_loop (pre @ x # ys) (Suc (length pre)) (Suc (length pre + length ys))
     = pre @ ys @ [last (x # ys)]"
proof (induction ys arbitrary: pre x)
  case Nil
  show ?case by (subst delete_loop.simps) simp
next
  case (Cons y ys)
  have "delete_loop (pre @ x # y # ys) (Suc (length pre)) (Suc (length pre + length (y # ys)))
      = delete_loop ((pre @ [y]) @ y # ys) (Suc (length (pre @ [y]))) (Suc (length (pre @ [y]) + length ys))"
    by (subst delete_loop.simps) (simp add: nth_append list_update_append)
  also have "\<dots> = (pre @ [y]) @ ys @ [last (y # ys)]"
    by (rule Cons.IH)
  finally show ?case by simp
qed

lemma shunt_loop_append:
  "shunt_loop (pre @ y # ys @ z # R) (Suc (length pre + length ys)) (length pre)
     = pre @ y # y # ys @ R"
proof (induction ys arbitrary: z R rule: rev_induct)
  case Nil
  show ?case
    by (subst shunt_loop.simps, subst shunt_loop.simps) (simp add: nth_append list_update_append)
next
  case (snoc a ys)
  have "shunt_loop (pre @ y # (ys @ [a]) @ z # R) (Suc (length pre + length (ys @ [a]))) (length pre)
     = shunt_loop (pre @ y # ys @ a # (a # R)) (Suc (length pre + length ys)) (length pre)"
    by (subst shunt_loop.simps) (simp add: nth_append list_update_append)
  also have "\<dots> = pre @ y # y # ys @ (a # R)"
    by (rule snoc.IH)
  finally show ?case by simp
qed

lemma shunt_loop_same: "shunt_loop state k k = state"
  by (subst shunt_loop.simps) simp

lemma insert_loop_append:
  assumes "temp \<notin> set T"
  shows "insert_loop (pre @ T @ [z]) (length pre) (Suc (length pre + length T)) temp
     = pre @ insort temp T"
  using assms
proof (induction T arbitrary: pre)
  case Nil
  show ?case
    by (subst insert_loop.simps) (simp add: shunt_loop_same)
next
  case (Cons y ys)
  show ?case
  proof (cases "temp < y")
    case True
    have "insert_loop (pre @ (y # ys) @ [z]) (length pre) (Suc (length pre + length (y # ys))) temp
       = (shunt_loop (pre @ y # ys @ z # []) (Suc (length pre + length ys)) (length pre))[length pre := temp]"
      using True by (subst insert_loop.simps) (simp add: nth_append)
    also have "\<dots> = (pre @ y # y # ys @ [])[length pre := temp]"
      by (simp only: shunt_loop_append)
    finally show ?thesis using True by (simp add: list_update_append)
  next
    case False
    then have lt: "y < temp" using Cons.prems by auto
    have "insert_loop (pre @ (y # ys) @ [z]) (length pre) (Suc (length pre + length (y # ys))) temp
       = insert_loop ((pre @ [y]) @ ys @ [z]) (length (pre @ [y])) (Suc (length (pre @ [y]) + length ys)) temp"
      using False by (subst insert_loop.simps) (simp add: nth_append)
    also have "\<dots> = (pre @ [y]) @ insort temp ys"
      using Cons.prems by (intro Cons.IH) simp
    finally show ?thesis using lt by simp
  qed
qed

lemma in_out_swap_result:
  assumes i: "i < length B" and m: "m < length T"
    and temp: "B ! i \<notin> set (take m T @ drop (Suc m) T)"
  shows "insert_loop (delete_loop ((B @ T)[i := T ! m]) (Suc (length B + m)) (length B + length T))
            (length B) (length B + length T) (B ! i)
         = B[i := T ! m] @ insort (B ! i) (take m T @ drop (Suc m) T)"
proof -
  define B' where "B' = B[i := T ! m]"
  define Ta where "Ta = take m T"
  define Tb where "Tb = drop (Suc m) T"
  define z where "z = last (T ! m # Tb)"
  have T: "T = Ta @ T ! m # Tb" unfolding Ta_def Tb_def using m by (rule id_take_nth_drop)
  have lB: "length B' = length B" by (simp add: B'_def)
  have la: "length Ta = m" using m by (simp add: Ta_def)
  have lb: "Suc (m + length Tb) = length T" using m by (simp add: Tb_def)
  have "(B @ T)[i := T ! m] = B' @ T"
    using i by (simp add: list_update_append B'_def)
  also have "\<dots> = (B' @ Ta) @ T ! m # Tb" using T by simp
  finally have s1: "(B @ T)[i := T ! m] = (B' @ Ta) @ T ! m # Tb" .
  have e1: "Suc (length (B' @ Ta)) = Suc (length B + m)" using la lB by simp
  have e2: "Suc (length (B' @ Ta) + length Tb) = length B + length T"
    using la lb lB by simp
  have "delete_loop ((B' @ Ta) @ T ! m # Tb) (Suc (length (B' @ Ta)))
          (Suc (length (B' @ Ta) + length Tb))
        = (B' @ Ta) @ Tb @ [z]"
    unfolding z_def by (rule delete_loop_append)
  then have d: "delete_loop ((B @ T)[i := T ! m]) (Suc (length B + m)) (length B + length T)
        = B' @ (Ta @ Tb) @ [z]"
    unfolding e1 e2 s1 by simp
  have e3: "Suc (length B' + length (Ta @ Tb)) = length B + length T"
    using la lb lB by simp
  have "insert_loop (B' @ (Ta @ Tb) @ [z]) (length B') (Suc (length B' + length (Ta @ Tb))) (B ! i)
        = B' @ insort (B ! i) (Ta @ Tb)"
    using temp unfolding Ta_def Tb_def by (rule insert_loop_append)
  then have "insert_loop (B' @ (Ta @ Tb) @ [z]) (length B) (length B + length T) (B ! i)
        = B' @ insort (B ! i) (Ta @ Tb)"
    unfolding lB e3[unfolded lB] .
  then show ?thesis
    unfolding d unfolding B'_def Ta_def Tb_def .
qed

lemma rand_int_range:
  assumes "0 \<le> r" "lo < hi"
  shows "\<exists>v. rand_int lo hi r = Inr v \<and> lo \<le> v \<and> v < hi"
proof -
  have pos: "0 < hi - lo" using assms(2) by simp
  have e: "r smod (hi - lo) = r mod (hi - lo)"
    using assms by (intro smod_mod_positive) simp_all
  have b: "0 \<le> r mod (hi - lo)" "r mod (hi - lo) < hi - lo"
    using pos by (rule pos_mod_sign, rule pos_mod_bound)
  have "rand_int lo hi r = Inr (lo + r mod (hi - lo))"
    using pos e by (simp add: rand_int_def)
  moreover have "lo \<le> lo + r mod (hi - lo)" "lo + r mod (hi - lo) < hi"
    using b by linarith+
  ultimately show ?thesis by blast
qed

lemma rand_int_Inr:
  assumes "rand_int lo hi r = Inr v" "0 \<le> r" "lo \<le> hi"
  shows "lo \<le> v \<and> v < hi"
proof -
  have "lo < hi" using assms by (auto simp: rand_int_def split: if_splits)
  then show ?thesis using rand_int_range[OF assms(2), of lo hi] assms(1) by auto
qed

lemma block_encoded_split:
  assumes "block_encoded state k"
  obtains B T where "state = B @ T" "length B = k" "length T = 26 - k" "k \<le> 26"
    "distinct B" "list_all symbol B" "sorted_wrt (<) T" "set T = {0..<26} - set B"
proof
  show "state = take k state @ drop k state" by simp
  show "length (take k state) = k" "length (drop k state) = 26 - k" "k \<le> 26"
    "distinct (take k state)" "list_all symbol (take k state)"
    "sorted_wrt (<) (drop k state)" "set (drop k state) = {0..<26} - set (take k state)"
    using assms by (simp_all add: block_encoded_def)
qed

lemma block_encoded_join:
  assumes "length B = k" "length T = 26 - k" "k \<le> 26"
    "distinct B" "list_all symbol B" "sorted_wrt (<) T" "set T = {0..<26} - set B"
  shows "block_encoded (B @ T) k"
  using assms by (simp add: block_encoded_def)

lemma block_encoded_swap:
  assumes enc: "block_encoded state k" and i: "i < k" and j: "j < k"
  shows "block_encoded (state[i := state ! j, j := state ! i]) k"
proof -
  obtain B T where st: "state = B @ T" and lB: "length B = k" and lT: "length T = 26 - k"
    and k: "k \<le> 26" and dB: "distinct B" and symB: "list_all symbol B"
    and sT: "sorted_wrt (<) T" and setT: "set T = {0..<26} - set B"
    using enc by (rule block_encoded_split)
  have nth: "state ! i = B ! i" "state ! j = B ! j"
    using i j lB by (simp_all add: st nth_append)
  have eq: "state[i := state ! j, j := state ! i] = B[i := B ! j, j := B ! i] @ T"
    unfolding nth using i j lB by (simp add: st list_update_append)
  have set_eq: "set (B[i := B ! j, j := B ! i]) = set B"
    using i j lB by (intro set_swap) simp_all
  have dist: "distinct (B[i := B ! j, j := B ! i])"
    using dB i j lB by (simp add: distinct_swap)
  have sym: "list_all symbol (B[i := B ! j, j := B ! i])"
    using symB set_eq unfolding list_all_iff by blast
  show ?thesis
    unfolding eq
    using lB lT k dist sym sT setT set_eq by (intro block_encoded_join) simp_all
qed

lemma sorted_wrt_remove_nth:
  assumes "sorted_wrt P T"
  shows "sorted_wrt P (take m T @ drop (Suc m) T)"
proof -
  have "sorted_wrt P (take m T @ drop m T)" using assms by simp
  then have a: "sorted_wrt P (take m T)" "sorted_wrt P (drop m T)"
    "\<forall>x\<in>set (take m T). \<forall>y\<in>set (drop m T). P x y"
    unfolding sorted_wrt_append by auto
  have "drop (Suc m) T = drop 1 (drop m T)" by simp
  then have "sorted_wrt P (drop (Suc m) T)" "set (drop (Suc m) T) \<subseteq> set (drop m T)"
    using a(2) by (simp_all add: sorted_wrt_drop set_drop_subset del: drop_drop)
  then show ?thesis using a unfolding sorted_wrt_append by auto
qed

lemma distinct_remove_nth:
  assumes "distinct T" "m < length T"
  shows "distinct (take m T @ drop (Suc m) T) \<and> set (take m T @ drop (Suc m) T) = set T - {T ! m}"
proof -
  have T: "T = take m T @ T ! m # drop (Suc m) T" using assms(2) by (rule id_take_nth_drop)
  have "distinct (take m T @ T ! m # drop (Suc m) T)" using assms(1) T by simp
  moreover have "set T = set (take m T @ T ! m # drop (Suc m) T)" using T by simp
  ultimately show ?thesis by auto
qed

lemma block_encoded_in_out:
  assumes enc: "block_encoded state k" and i: "i < k" and j: "k \<le> j" "j < 26"
  shows "block_encoded
     (insert_loop (delete_loop (state[i := state ! j]) (Suc j) 26) k 26 (state ! i)) k"
proof -
  obtain B T where st: "state = B @ T" and lB: "length B = k" and lT: "length T = 26 - k"
    and k: "k \<le> 26" and dB: "distinct B" and symB: "list_all symbol B"
    and sT: "sorted_wrt (<) T" and setT: "set T = {0..<26} - set B"
    using enc by (rule block_encoded_split)
  define m where "m = j - k"
  have m: "m < length T" "j = k + m" using j lT by (simp_all add: m_def)
  have dT: "distinct T" using sT strict_sorted_iff by blast
  have nth: "state ! i = B ! i" "state ! j = T ! m"
    using i m lB by (simp_all add: st nth_append)
  define T1 where "T1 = take m T @ drop (Suc m) T"
  have T1: "distinct T1" "set T1 = set T - {T ! m}"
    using distinct_remove_nth[OF dT m(1)] by (simp_all add: T1_def)
  have lT1: "Suc (length T1) = length T" using m(1) by (simp add: T1_def)
  have tempB: "B ! i \<in> set B" using i lB by simp
  then have temp: "B ! i \<notin> set T1" using T1 setT by auto
  have xT: "T ! m \<in> set T" using m by simp
  then have xB: "T ! m \<notin> set B" using setT by auto
  have symx: "symbol (T ! m)" using xT setT by (auto simp: symbol_def)
  have symt: "B ! i \<in> {0..<26}" using symB tempB by (auto simp: list_all_iff symbol_def)
  have len26: "length B + length T = 26" using lB lT k by simp
  have "insert_loop (delete_loop ((B @ T)[i := T ! m]) (Suc (length B + m)) (length B + length T))
            (length B) (length B + length T) (B ! i)
         = B[i := T ! m] @ insort (B ! i) (take m T @ drop (Suc m) T)"
    using i lB m(1) temp unfolding T1_def by (intro in_out_swap_result) simp_all
  then have res: "insert_loop (delete_loop (state[i := state ! j]) (Suc j) 26) k 26 (state ! i)
        = B[i := T ! m] @ insort (B ! i) T1"
    using i k by (simp add: st nth_append lB lT m(2) T1_def)
  have setB': "set (B[i := T ! m]) = insert (T ! m) (set B - {B ! i})"
    using dB i lB by (intro set_update_distinct) simp_all
  have dB': "distinct (B[i := T ! m])"
    using dB xB by (intro distinct_list_update) auto
  have symB': "list_all symbol (B[i := T ! m])"
    using symB symx setB' by (auto simp: list_all_iff)
  have sorted1: "sorted_wrt (<) T1" unfolding T1_def using sT by (rule sorted_wrt_remove_nth)
  have "sorted T1" using sorted1 strict_sorted_iff by blast
  then have "sorted (insort (B ! i) T1)" by (simp add: sorted_insort)
  moreover have "distinct (insort (B ! i) T1)" using T1(1) temp by (simp add: distinct_insort)
  ultimately have sT': "sorted_wrt (<) (insort (B ! i) T1)" using strict_sorted_iff by blast
  have setT': "set (insort (B ! i) T1) = {0..<26} - set (B[i := T ! m])"
    using T1(2) setT setB' tempB xB symt by (auto simp: set_insort_key)
  have lT': "length (insort (B ! i) T1) = 26 - k" using lT1 lT by simp
  show ?thesis
    unfolding res
    using lB lT' k dB' symB' sT' setT' by (intro block_encoded_join) simp_all
qed

text \<open>
  For a keyword array that satisfies the block encoding with keyword length \<open>k \<ge> 1\<close> and
  for every outcome of the three random draws, every state that \<^verbatim>\<open>perturbate_keyword\<close>
  produces satisfies the block encoding with the same \<open>k\<close> again; and for \<open>k < 26\<close> it
  always produces a state.
\<close>

lemma perturbate_keyword_encoded_below_26:
  assumes enc: "block_encoded state k" and k: "0 < k" and r: "0 \<le> r1" "0 \<le> r2"
  shows "(\<forall>state'. perturbate_keyword rand_max state 26 k r0 r1 r2 = Inr state'
            \<longrightarrow> block_encoded state' k) \<and>
         (k < 26 \<longrightarrow> (\<exists>state'. perturbate_keyword rand_max state 26 k r0 r1 r2 = Inr state'))"
proof -
  have len: "length state = 26" "k \<le> 26" using enc by (simp_all add: block_encoded_def)
  obtain i where i: "rand_int 0 (int k) r1 = Inr i" "0 \<le> i" "i < int k"
    using rand_int_range[OF r(1), of 0 "int k"] k by auto
  have bi: "in_bounds state i" using i len by (simp add: in_bounds_def)
  have ni: "nat i < k" using i by simp
  show ?thesis
  proof (cases "frand rand_max r0 < 2 / 10")
    case True
    obtain j where j: "rand_int 0 (int k) r2 = Inr j" "0 \<le> j" "j < int k"
      using rand_int_range[OF r(2), of 0 "int k"] k by auto
    have bj: "in_bounds state j" using j len by (simp add: in_bounds_def)
    have nj: "nat j < k" using j by simp
    have res: "perturbate_keyword rand_max state 26 k r0 r1 r2
        = Inr (state[nat i := state ! nat j, nat j := state ! nat i])"
      using True i(1) j(1) bi bj by (simp add: perturbate_keyword_def)
    show ?thesis
      unfolding res using block_encoded_swap[OF enc ni nj] by simp
  next
    case False
    show ?thesis
    proof (cases "k < 26")
      case lt: True
      obtain j where j: "rand_int (int k) (int 26) r2 = Inr j" "int k \<le> j" "j < 26"
        using rand_int_range[OF r(2), of "int k" "int 26"] lt by auto
      have bj: "in_bounds state j" using j len by (simp add: in_bounds_def)
      have nj: "k \<le> nat j" "nat j < 26" using j by simp_all
      have res: "perturbate_keyword rand_max state 26 k r0 r1 r2
          = Inr (insert_loop (delete_loop (state[nat i := state ! nat j]) (Suc (nat j)) 26)
                   k 26 (state ! nat i))"
        using False i(1) j(1) bi bj len by (simp add: perturbate_keyword_def Let_def)
      show ?thesis
        unfolding res using block_encoded_in_out[OF enc ni nj] by simp
    next
      case ge: False
      then have "k = 26" using len by simp
      then have "perturbate_keyword rand_max state 26 k r0 r1 r2 = Inl DivideByZero"
        using False i(1) by (simp add: perturbate_keyword_def rand_int_def)
      then show ?thesis using ge by simp
    qed
  qed
qed

lemma perturbate_keyword_encoded_below_26_example:
  "block_encoded kryptos_alphabet 7 \<and>
   perturbate_keyword 2147483647 kryptos_alphabet 26 7 2147483647 3 5 = Inr
     [10, 17, 24, 5, 19, 14, 18, 0, 1, 2, 3, 4, 6, 7, 8, 9, 11, 12, 13, 15, 16, 20, 21, 22, 23, 25] \<and>
   block_encoded
     [10, 17, 24, 5, 19, 14, 18, 0, 1, 2, 3, 4, 6, 7, 8, 9, 11, 12, 13, 15, 16, 20, 21, 22, 23, 25] 7 \<and>
   perturbate_keyword 2147483647 kryptos_alphabet 26 7 0 3 5 = Inr
     [10, 17, 24, 14, 19, 15, 18, 0, 1, 2, 3, 4, 5, 6, 7, 8, 9, 11, 12, 13, 16, 20, 21, 22, 23, 25] \<and>
   block_encoded
     [10, 17, 24, 14, 19, 15, 18, 0, 1, 2, 3, 4, 5, 6, 7, 8, 9, 11, 12, 13, 16, 20, 21, 22, 23, 25] 7"
proof -
  have h: "block_encoded kryptos_alphabet 7" by code_simp
  have a: "perturbate_keyword 2147483647 kryptos_alphabet 26 7 2147483647 3 5 = Inr
     [10, 17, 24, 5, 19, 14, 18, 0, 1, 2, 3, 4, 6, 7, 8, 9, 11, 12, 13, 15, 16, 20, 21, 22, 23, 25]"
    by code_simp
  have b: "perturbate_keyword 2147483647 kryptos_alphabet 26 7 0 3 5 = Inr
     [10, 17, 24, 14, 19, 15, 18, 0, 1, 2, 3, 4, 5, 6, 7, 8, 9, 11, 12, 13, 16, 20, 21, 22, 23, 25]"
    by code_simp
  show ?thesis
    using perturbate_keyword_encoded_below_26[OF h, of 3 5 2147483647 2147483647]
      perturbate_keyword_encoded_below_26[OF h, of 3 5 2147483647 0] h a b
    by simp
qed

text \<open>
  C4.  With the keyword length \<open>k = 26\<close> the keyword block is the whole array, and every
  array of 26 entries, block encoded or not, is treated alike: whenever the first draw does
  not choose the in-block swap (\<^verbatim>\<open>frand() < 0.2\<close> fails), \<^verbatim>\<open>perturbate_keyword\<close> calls
  \<^verbatim>\<open>rand_int(26, 26)\<close>, which computes \<^verbatim>\<open>rand() % 0\<close>: the division by zero is the
  result, for every outcome of the other two draws, and no state is produced.
\<close>

theorem perturbate_keyword_full_block_divides_by_zero:
  assumes "\<not> frand rand_max r0 < 2 / 10"
  shows "perturbate_keyword rand_max state 26 26 r0 r1 r2 = Inl DivideByZero"
  using assms by (simp add: perturbate_keyword_def rand_int_def)

theorem perturbate_keyword_full_block_divides_by_zero_witness:
  "block_encoded (straight_alphabet 26) 26 \<and>
   \<not> frand 2147483647 2147483647 < 2 / 10 \<and>
   perturbate_keyword 2147483647 (straight_alphabet 26) 26 26 2147483647 3 5
     = Inl DivideByZero"
proof -
  have e: "block_encoded (straight_alphabet 26) 26" by code_simp
  have f: "\<not> frand 2147483647 2147483647 < 2 / 10" by (simp add: frand_def)
  show ?thesis
    using perturbate_keyword_full_block_divides_by_zero[OF f, of "straight_alphabet 26" 3 5] e f
    by simp
qed

subsection \<open>The crib feasibility gate\<close>

lemma running_total_exceeds_sum:
  "tot \<le> 1 \<Longrightarrow> \<forall>x\<in>set xs. 0 \<le> x \<Longrightarrow>
     running_total_exceeds tot xs \<longleftrightarrow> 1 < tot + sum_list xs"
proof (induction xs arbitrary: tot)
  case Nil
  then show ?case by simp
next
  case (Cons x xs)
  have nn: "0 \<le> sum_list xs" using Cons.prems(2) by (simp add: sum_list_nonneg)
  show ?case
  proof (cases "1 < tot + x")
    case True
    then show ?thesis using nn by simp
  next
    case False
    then have "running_total_exceeds (tot + x) xs \<longleftrightarrow> 1 < (tot + x) + sum_list xs"
      using Cons.prems(2) by (intro Cons.IH) simp_all
    then show ?thesis using False by (simp add: add.assoc)
  qed
qed

lemma sum_list_indicator:
  "sum_list (map (\<lambda>j. if P j then 1 else (0::int)) xs) = int (length (filter P xs))"
  by (induction xs) simp_all

lemma two_in_filter:
  assumes "distinct xs"
  shows "1 < length (filter P xs) \<longleftrightarrow> (\<exists>a\<in>set xs. \<exists>b\<in>set xs. a \<noteq> b \<and> P a \<and> P b)"
proof -
  let ?A = "{x \<in> set xs. P x}"
  have fin: "finite ?A" by simp
  have "length (filter P xs) = card ?A"
    using assms by (simp add: distinct_length_filter Collect_conj_eq Int_commute)
  moreover have "card ?A \<le> Suc 0 \<longleftrightarrow> (\<forall>a\<in>?A. \<forall>b\<in>?A. a = b)"
    using fin by (rule card_le_Suc0_iff_eq)
  ultimately have "1 < length (filter P xs) \<longleftrightarrow> \<not> (\<forall>a\<in>?A. \<forall>b\<in>?A. a = b)"
    by auto
  then show ?thesis by auto
qed

lemma set_upto_25: "x \<in> set [0..25] \<longleftrightarrow> symbol x"
  by (auto simp: symbol_def)

lemma indicator_row_exceeds:
  "running_total_exceeds 0 (map (\<lambda>jj. indicator_of R ii jj) [0..25]) \<longleftrightarrow>
     (\<exists>a. \<exists>b. symbol a \<and> symbol b \<and> a \<noteq> b \<and> (a, ii) \<in> R \<and> (b, ii) \<in> R)"
proof -
  have "running_total_exceeds 0 (map (\<lambda>jj. indicator_of R ii jj) [0..25])
      \<longleftrightarrow> 1 < 0 + sum_list (map (\<lambda>jj. indicator_of R ii jj) [0..25])"
    by (rule running_total_exceeds_sum) (auto simp: indicator_of_def)
  also have "\<dots> \<longleftrightarrow> 1 < length (filter (\<lambda>jj. (jj, ii) \<in> R) [0..25])"
    unfolding indicator_of_def sum_list_indicator by simp
  also have "\<dots> \<longleftrightarrow> (\<exists>a\<in>set [0..25]. \<exists>b\<in>set [0..25]. a \<noteq> b \<and> (a, ii) \<in> R \<and> (b, ii) \<in> R)"
    by (rule two_in_filter) simp
  finally show ?thesis unfolding Bex_def set_upto_25 by blast
qed

lemma indicator_col_exceeds:
  "running_total_exceeds 0 (map (\<lambda>ii. indicator_of R ii jj) [0..25]) \<longleftrightarrow>
     (\<exists>a. \<exists>b. symbol a \<and> symbol b \<and> a \<noteq> b \<and> (jj, a) \<in> R \<and> (jj, b) \<in> R)"
proof -
  have "running_total_exceeds 0 (map (\<lambda>ii. indicator_of R ii jj) [0..25])
      \<longleftrightarrow> 1 < 0 + sum_list (map (\<lambda>ii. indicator_of R ii jj) [0..25])"
    by (rule running_total_exceeds_sum) (auto simp: indicator_of_def)
  also have "\<dots> \<longleftrightarrow> 1 < length (filter (\<lambda>ii. (jj, ii) \<in> R) [0..25])"
    unfolding indicator_of_def sum_list_indicator by simp
  also have "\<dots> \<longleftrightarrow> (\<exists>a\<in>set [0..25]. \<exists>b\<in>set [0..25]. a \<noteq> b \<and> (jj, a) \<in> R \<and> (jj, b) \<in> R)"
    by (rule two_in_filter) simp
  finally show ?thesis unfolding Bex_def set_upto_25 by blast
qed

lemma row_clash_iff:
  "row_clash (indicator_of R) \<longleftrightarrow>
     (\<exists>ii a b. symbol ii \<and> symbol a \<and> symbol b \<and> a \<noteq> b \<and> (a, ii) \<in> R \<and> (b, ii) \<in> R)"
  unfolding row_clash_def list_ex_iff indicator_row_exceeds Bex_def set_upto_25 by blast

lemma col_clash_iff:
  "col_clash (indicator_of R) \<longleftrightarrow>
     (\<exists>jj a b. symbol jj \<and> symbol a \<and> symbol b \<and> a \<noteq> b \<and> (jj, a) \<in> R \<and> (jj, b) \<in> R)"
  unfolding col_clash_def list_ex_iff indicator_col_exceeds Bex_def set_upto_25 by blast

lemma clash_iff:
  assumes "symbol_pairs R"
  shows "row_clash (indicator_of R) \<or> col_clash (indicator_of R) \<longleftrightarrow> \<not> partial_bijection R"
proof
  assume "row_clash (indicator_of R) \<or> col_clash (indicator_of R)"
  then show "\<not> partial_bijection R"
  proof
    assume "row_clash (indicator_of R)"
    then obtain ii a b where "a \<noteq> b" "(a, ii) \<in> R" "(b, ii) \<in> R"
      unfolding row_clash_iff by blast
    then show ?thesis unfolding partial_bijection_def by blast
  next
    assume "col_clash (indicator_of R)"
    then obtain jj a b where "a \<noteq> b" "(jj, a) \<in> R" "(jj, b) \<in> R"
      unfolding col_clash_iff by blast
    then show ?thesis unfolding partial_bijection_def by blast
  qed
next
  assume "\<not> partial_bijection R"
  then obtain a b a' b' where ab: "(a, b) \<in> R" "(a', b') \<in> R" "(a = a') \<noteq> (b = b')"
    unfolding partial_bijection_def by blast
  have sym: "symbol a" "symbol b" "symbol a'" "symbol b'"
    using assms ab(1,2) unfolding symbol_pairs_def by blast+
  show "row_clash (indicator_of R) \<or> col_clash (indicator_of R)"
  proof (cases "a = a'")
    case True
    then have "b \<noteq> b'" using ab(3) by simp
    then have "col_clash (indicator_of R)"
      unfolding col_clash_iff using ab(1,2) sym True by blast
    then show ?thesis ..
  next
    case False
    then have "b = b'" using ab(3) by simp
    then have "row_clash (indicator_of R)"
      unfolding row_clash_iff using ab(1,2) sym False by blast
    then show ?thesis ..
  qed
qed

lemma indicator_of_insert:
  "set_frequency (indicator_of R) crib_char ct = indicator_of (insert (ct, crib_char) R)"
  by (auto simp: indicator_of_def set_frequency_def fun_eq_iff)

lemma partial_bijection_subset:
  "partial_bijection R \<Longrightarrow> R' \<subseteq> R \<Longrightarrow> partial_bijection R'"
  unfolding partial_bijection_def by blast

lemma column_from_set:
  "(indx, ct) \<in> set (column_from cipher p j k) \<longleftrightarrow>
     0 < p \<and> (\<exists>k'\<ge>k. indx = p * k' + j) \<and> indx < length cipher \<and> ct = cipher ! indx"
proof (induction cipher p j k rule: column_from.induct)
  case (1 cipher p j k)
  show ?case
  proof (cases "0 < p \<and> p * k + j < length cipher")
    case False
    have "column_from cipher p j k = []"
      using False by (subst column_from.simps) simp
    moreover have "\<not> (0 < p \<and> (\<exists>k'\<ge>k. indx = p * k' + j) \<and> indx < length cipher)"
    proof
      assume a: "0 < p \<and> (\<exists>k'\<ge>k. indx = p * k' + j) \<and> indx < length cipher"
      then obtain k' where k': "k \<le> k'" "indx = p * k' + j" by blast
      have le: "p * k \<le> p * k'" using k'(1) by simp
      have "\<not> p * k + j < length cipher" using a False by blast
      moreover have "p * k' + j < length cipher" using a k'(2) by simp
      ultimately show False using le by linarith
    qed
    ultimately show ?thesis by auto
  next
    case True
    have unf: "column_from cipher p j k =
        (p * k + j, cipher ! (p * k + j)) # column_from cipher p j (Suc k)"
      using True by (subst column_from.simps) simp
    have IH: "(indx, ct) \<in> set (column_from cipher p j (Suc k)) \<longleftrightarrow>
        0 < p \<and> (\<exists>k'\<ge>Suc k. indx = p * k' + j) \<and> indx < length cipher \<and> ct = cipher ! indx"
      using 1 True by simp
    have split: "(\<exists>k'\<ge>k. indx = p * k' + j) \<longleftrightarrow>
        indx = p * k + j \<or> (\<exists>k'\<ge>Suc k. indx = p * k' + j)"
      by (metis Suc_leD Suc_leI le_neq_implies_less order_refl)
    show ?thesis
      unfolding unf using IH True split by auto
  qed
qed

lemma column_from_distinct: "distinct (map fst (column_from cipher p j k))"
proof (induction cipher p j k rule: column_from.induct)
  case (1 cipher p j k)
  show ?case
  proof (cases "0 < p \<and> p * k + j < length cipher")
    case False
    then have "column_from cipher p j k = []" by (subst column_from.simps) simp
    then show ?thesis by simp
  next
    case True
    have unf: "column_from cipher p j k =
        (p * k + j, cipher ! (p * k + j)) # column_from cipher p j (Suc k)"
      using True by (subst column_from.simps) simp
    have "p * k + j \<notin> fst ` set (column_from cipher p j (Suc k))"
    proof
      assume "p * k + j \<in> fst ` set (column_from cipher p j (Suc k))"
      then obtain ct where "(p * k + j, ct) \<in> set (column_from cipher p j (Suc k))" by force
      then obtain k' where k': "Suc k \<le> k'" "p * k + j = p * k' + j"
        unfolding column_from_set by blast
      then have "p * k = p * k'" by simp
      then have "k = k'" using True by simp
      then show False using k'(1) by simp
    qed
    then show ?thesis unfolding unf using 1 True by simp
  qed
qed

lemma in_column_iff:
  assumes "j < p"
  shows "(indx, ct) \<in> set (column_from cipher p j 0) \<longleftrightarrow>
     indx < length cipher \<and> indx mod p = j \<and> ct = cipher ! indx"
proof -
  have "(\<exists>k'\<ge>0. indx = p * k' + j) \<longleftrightarrow> indx mod p = j"
  proof
    assume "\<exists>k'\<ge>0. indx = p * k' + j"
    then show "indx mod p = j" using assms by auto
  next
    assume "indx mod p = j"
    then have "indx = p * (indx div p) + j" by (metis mult_div_mod_eq)
    then show "\<exists>k'\<ge>0. indx = p * k' + j" by blast
  qed
  then show ?thesis unfolding column_from_set using assms by auto
qed

lemma column_loop_absent:
  "posn \<notin> fst ` set column \<Longrightarrow> column_loop f posn c column = Inr (Some f)"
  by (induction column) auto

lemma column_loop_present:
  assumes "symbol c" "symbol ct"
  shows "distinct (map fst column) \<Longrightarrow> (posn, ct) \<in> set column \<Longrightarrow>
    column_loop f posn c column =
      (if row_clash (set_frequency f c ct) \<or> col_clash (set_frequency f c ct)
       then Inr None else Inr (Some (set_frequency f c ct)))"
proof (induction column)
  case Nil
  then show ?case by simp
next
  case (Cons a column)
  obtain indx ct0 where a: "a = (indx, ct0)" by (cases a)
  show ?case
  proof (cases "posn = indx")
    case True
    have notin: "posn \<notin> fst ` set column" using Cons.prems(1) a True by simp
    then have "(posn, ct) \<notin> set column" by force
    then have ct: "ct0 = ct" using Cons.prems(2) a True by simp
    show ?thesis
      unfolding a using True ct assms notin
      by (simp add: Let_def column_loop_absent)
  next
    case False
    then have "(posn, ct) \<in> set column" using Cons.prems(2) a by simp
    then show ?thesis
      unfolding a using False Cons.IH Cons.prems(1) by simp
  qed
qed

lemma column_pairs_Nil: "column_pairs cipher [] p j = {}"
  by (simp add: column_pairs_def)

lemma column_pairs_Cons:
  "column_pairs cipher ((posn, c) # cribs) p j =
     (if posn < length cipher \<and> posn mod p = j
      then insert (cipher ! posn, c) (column_pairs cipher cribs p j)
      else column_pairs cipher cribs p j)"
  by (simp add: column_pairs_def)

lemma crib_loop_result:
  assumes j: "j < p" and vt: "valid_text cipher"
  shows "symbol_pairs R \<Longrightarrow> partial_bijection R \<Longrightarrow> valid_cribs cribs \<Longrightarrow>
    crib_loop (indicator_of R) (column_from cipher p j 0) cribs
      = Inr (partial_bijection (R \<union> column_pairs cipher cribs p j))"
proof (induction cribs arbitrary: R)
  case Nil
  then show ?case by (simp add: column_pairs_Nil)
next
  case (Cons a cribs)
  obtain posn c where a: "a = (posn, c)" by (cases a)
  have c: "symbol c" and rest: "valid_cribs cribs"
    using Cons.prems(3) a by (simp_all add: valid_cribs_def)
  show ?case
  proof (cases "posn < length cipher \<and> posn mod p = j")
    case True
    let ?ct = "cipher ! posn"
    let ?R = "insert (?ct, c) R"
    have ct: "symbol ?ct" using vt True by (simp add: valid_text_def list_all_length)
    have mem: "(posn, ?ct) \<in> set (column_from cipher p j 0)"
      using True in_column_iff[OF j] by simp
    have sp: "symbol_pairs ?R" using Cons.prems(1) c ct by (simp add: symbol_pairs_def)
    have loop: "column_loop (indicator_of R) posn c (column_from cipher p j 0) =
        (if \<not> partial_bijection ?R then Inr None else Inr (Some (indicator_of ?R)))"
      using column_loop_present[OF c ct column_from_distinct mem, of "indicator_of R"]
      unfolding indicator_of_insert clash_iff[OF sp] .
    have cp: "R \<union> column_pairs cipher (a # cribs) p j = ?R \<union> column_pairs cipher cribs p j"
      unfolding a column_pairs_Cons using True by simp
    show ?thesis
    proof (cases "partial_bijection ?R")
      case pb: True
      have "crib_loop (indicator_of R) (column_from cipher p j 0) (a # cribs)
          = crib_loop (indicator_of ?R) (column_from cipher p j 0) cribs"
        unfolding a using loop pb by simp
      also have "\<dots> = Inr (partial_bijection (?R \<union> column_pairs cipher cribs p j))"
        using sp pb rest by (rule Cons.IH)
      finally show ?thesis unfolding cp .
    next
      case npb: False
      have "\<not> partial_bijection (?R \<union> column_pairs cipher cribs p j)"
        using npb partial_bijection_subset[of "?R \<union> column_pairs cipher cribs p j" ?R] by blast
      moreover have "crib_loop (indicator_of R) (column_from cipher p j 0) (a # cribs) = Inr False"
        unfolding a using loop npb by simp
      ultimately show ?thesis unfolding cp by simp
    qed
  next
    case False
    have "posn \<notin> fst ` set (column_from cipher p j 0)"
    proof
      assume "posn \<in> fst ` set (column_from cipher p j 0)"
      then obtain ct where "(posn, ct) \<in> set (column_from cipher p j 0)" by force
      then show False using in_column_iff[OF j] False by blast
    qed
    then have loop: "column_loop (indicator_of R) posn c (column_from cipher p j 0)
        = Inr (Some (indicator_of R))"
      by (rule column_loop_absent)
    have cp: "column_pairs cipher (a # cribs) p j = column_pairs cipher cribs p j"
      unfolding a column_pairs_Cons using False by auto
    have "crib_loop (indicator_of R) (column_from cipher p j 0) (a # cribs)
          = crib_loop (indicator_of R) (column_from cipher p j 0) cribs"
      unfolding a using loop by simp
    also have "\<dots> = Inr (partial_bijection (R \<union> column_pairs cipher cribs p j))"
      using Cons.prems(1,2) rest by (rule Cons.IH)
    finally show ?thesis unfolding cp .
  qed
qed

lemma indicator_of_empty: "indicator_of {} = (\<lambda>i k. 0)"
  by (simp add: indicator_of_def)

lemma check_columns_result:
  assumes vt: "valid_text cipher" and cribs: "valid_cribs cribs"
  shows "\<forall>j\<in>set js. j < p \<Longrightarrow>
    check_columns cipher cribs p js
      = Inr (\<forall>j\<in>set js. partial_bijection (column_pairs cipher cribs p j))"
proof (induction js)
  case Nil
  then show ?case by simp
next
  case (Cons j js)
  have j: "j < p" using Cons.prems by simp
  have "crib_loop (indicator_of {}) (column_from cipher p j 0) cribs
      = Inr (partial_bijection ({} \<union> column_pairs cipher cribs p j))"
    using j vt _ _ cribs
    by (rule crib_loop_result) (simp_all add: symbol_pairs_def partial_bijection_def)
  then have one: "crib_loop (\<lambda>i k. 0) (column_from cipher p j 0) cribs
      = Inr (partial_bijection (column_pairs cipher cribs p j))"
    unfolding indicator_of_empty by simp
  have IH: "check_columns cipher cribs p js
      = Inr (\<forall>j\<in>set js. partial_bijection (column_pairs cipher cribs p j))"
    using Cons.prems by (intro Cons.IH) simp
  show ?case using one IH by (cases "partial_bijection (column_pairs cipher cribs p j)") simp_all
qed

text \<open>
  C6.  For a ciphertext and cribs whose symbols lie in \<open>[0, 26)\<close> and every period \<open>p\<close>,
  \<^verbatim>\<open>cribs_satisfied_p\<close> returns true exactly when in every column \<open>c < p\<close> the pairs of
  ciphertext and plaintext symbols that the cribs induce form a partial bijection; that is,
  it returns false if and only if in some column two distinct plaintext symbols are paired
  with one ciphertext symbol or two distinct ciphertext symbols with one plaintext symbol.
  In particular, for the ciphertext \<open>AAAA\<close> with the cribs \<open>X\<close> at position 0 and \<open>Y\<close> at
  position 2 and period 2 it returns false.
\<close>

theorem cribs_satisfied_p_partial_bijection:
  "(valid_text cipher_indices \<and> valid_cribs cribs \<longrightarrow>
      cribs_satisfied_p cipher_indices cribs p
        = Inr (\<forall>c<p. partial_bijection (column_pairs cipher_indices cribs p c))) \<and>
   cribs_satisfied_p [0, 0, 0, 0] [(0, 23), (2, 24)] 2 = Inr False"
proof
  show "valid_text cipher_indices \<and> valid_cribs cribs \<longrightarrow>
      cribs_satisfied_p cipher_indices cribs p
        = Inr (\<forall>c<p. partial_bijection (column_pairs cipher_indices cribs p c))"
  proof
    assume v: "valid_text cipher_indices \<and> valid_cribs cribs"
    show "cribs_satisfied_p cipher_indices cribs p
        = Inr (\<forall>c<p. partial_bijection (column_pairs cipher_indices cribs p c))"
    proof (cases "cribs = []")
      case True
      then show ?thesis
        by (simp add: cribs_satisfied_p_def column_pairs_Nil partial_bijection_def)
    next
      case False
      have "check_columns cipher_indices cribs p [0..<p]
          = Inr (\<forall>j\<in>set [0..<p]. partial_bijection (column_pairs cipher_indices cribs p j))"
        using v by (intro check_columns_result) simp_all
      then show ?thesis using False by (simp add: cribs_satisfied_p_def Ball_def)
    qed
  qed
  show "cribs_satisfied_p [0, 0, 0, 0] [(0, 23), (2, 24)] 2 = Inr False"
    by code_simp
qed

theorem cribs_satisfied_p_partial_bijection_witness:
  "valid_text [0, 1, 0, 1] \<and> valid_cribs [(0, 23), (1, 24), (2, 23)] \<and>
   cribs_satisfied_p [0, 1, 0, 1] [(0, 23), (1, 24), (2, 23)] 2 = Inr True \<and>
   partial_bijection (column_pairs [0, 1, 0, 1] [(0, 23), (1, 24), (2, 23)] 2 0) \<and>
   partial_bijection (column_pairs [0, 1, 0, 1] [(0, 23), (1, 24), (2, 23)] 2 1)"
proof -
  have h1: "valid_text [0, 1, 0, 1]" by code_simp
  have h2: "valid_cribs [(0, 23), (1, 24), (2, 23)]" by code_simp
  have r: "cribs_satisfied_p [0, 1, 0, 1] [(0, 23), (1, 24), (2, 23)] 2 = Inr True" by code_simp
  have "cribs_satisfied_p [0, 1, 0, 1] [(0, 23), (1, 24), (2, 23)] 2
      = Inr (\<forall>c<2. partial_bijection (column_pairs [0, 1, 0, 1] [(0, 23), (1, 24), (2, 23)] 2 c))"
    using cribs_satisfied_p_partial_bijection[of "[0, 1, 0, 1]" "[(0, 23), (1, 24), (2, 23)]" 2]
      h1 h2 by blast
  then have "\<forall>c<2. partial_bijection (column_pairs [0, 1, 0, 1] [(0, 23), (1, 24), (2, 23)] 2 c)"
    using r by simp
  then have "partial_bijection (column_pairs [0, 1, 0, 1] [(0, 23), (1, 24), (2, 23)] 2 0)"
    "partial_bijection (column_pairs [0, 1, 0, 1] [(0, 23), (1, 24), (2, 23)] 2 1)"
    by simp_all
  then show ?thesis using h1 h2 r by blast
qed

subsection \<open>The cycleword constraint\<close>

text \<open>
  C2 at a Quagmire I key: plaintext keyword \<open>BA\<close> (keyword length 2), straight ciphertext
  alphabet, period 1, ciphertext \<open>B\<close> with the crib \<open>B\<close> at position 0, not the variant.
  \<^verbatim>\<open>constrain_cycleword\<close> reports no contradiction and sets the cycleword to \<open>A\<close>, and
  \<^verbatim>\<open>quagmire_decrypt\<close> with that cycleword gives \<open>A\<close> at position 0, not the crib
  \<open>B\<close>: the derived symbol is read from the plaintext keyword, where the transform
  looks the cycleword up in the ciphertext keyword.
\<close>

theorem constrain_cycleword_misses_crib:
  "keyword_perm keyword_BA \<and> block_encoded keyword_BA 2 \<and> keyword_perm (straight_alphabet 26) \<and>
   constrain_cycleword (- 1) [1] [(0, 1)] keyword_BA (straight_alphabet 26) [7] False
     = Inr (False, [0]) \<and>
   quagmire_decrypt [1] keyword_BA (straight_alphabet 26) [0] False = Inr [0]"
  by code_simp

subsection \<open>The fitness function\<close>

lemma ngram_index_sum:
  "ngram_index ds indx base = indx + base * (\<Sum>j<length ds. ds ! j * 26 ^ j)"
proof (induction ds arbitrary: indx base)
  case Nil
  then show ?case by simp
next
  case (Cons d ds)
  have "(\<Sum>j<Suc (length ds). (d # ds) ! j * 26 ^ j)
      = d + 26 * (\<Sum>j<length ds. ds ! j * 26 ^ j)"
    by (subst sum.lessThan_Suc_shift) (simp add: sum_distrib_left mult_ac)
  then show ?case by (simp add: Cons.IH algebra_simps)
qed

lemma gram_bounds:
  "list_all symbol ds \<Longrightarrow>
     0 \<le> (\<Sum>j<length ds. ds ! j * 26 ^ j) \<and> (\<Sum>j<length ds. ds ! j * 26 ^ j) < 26 ^ length ds"
proof (induction ds)
  case Nil
  then show ?case by simp
next
  case (Cons d ds)
  have e: "(\<Sum>j<Suc (length ds). (d # ds) ! j * 26 ^ j)
      = d + 26 * (\<Sum>j<length ds. ds ! j * 26 ^ j)"
    by (subst sum.lessThan_Suc_shift) (simp add: sum_distrib_left mult_ac)
  have d: "0 \<le> d" "d < 26" using Cons.prems by (simp_all add: symbol_def)
  have IH: "0 \<le> (\<Sum>j<length ds. ds ! j * 26 ^ j)"
    "(\<Sum>j<length ds. ds ! j * 26 ^ j) + 1 \<le> 26 ^ length ds"
    using Cons.IH Cons.prems by simp_all
  have "26 * ((\<Sum>j<length ds. ds ! j * 26 ^ j) + 1) \<le> 26 * (26::int) ^ length ds"
    using IH(2) by simp
  then show ?case using d IH(1) unfolding length_Cons e by (simp add: algebra_simps)
qed

lemma ngram_window:
  assumes "i + n \<le> length D"
  shows "ngram_index (take n (drop i D)) 0 1 = ngram_at D i n"
proof -
  have l: "length (take n (drop i D)) = n" using assms by simp
  have "(\<Sum>j<n. take n (drop i D) ! j * 26 ^ j) = (\<Sum>j<n. D ! (i + j) * 26 ^ j)"
    using assms by (intro sum.cong) simp_all
  then show ?thesis unfolding ngram_index_sum l ngram_at_def by simp
qed

lemma ngram_window_bounds:
  assumes "i + n \<le> length D" "valid_text D"
  shows "0 \<le> ngram_at D i n \<and> ngram_at D i n < 26 ^ n"
proof -
  have l: "length (take n (drop i D)) = n" using assms by simp
  have "list_all symbol (take n (drop i D))"
    using assms(2) unfolding valid_text_def list_all_iff
    by (meson in_set_dropD in_set_takeD)
  then have "0 \<le> (\<Sum>j<length (take n (drop i D)). take n (drop i D) ! j * 26 ^ j) \<and>
      (\<Sum>j<length (take n (drop i D)). take n (drop i D) ! j * 26 ^ j) < 26 ^ length (take n (drop i D))"
    by (rule gram_bounds)
  moreover have "(\<Sum>j<n. take n (drop i D) ! j * 26 ^ j) = ngram_at D i n"
    unfolding ngram_at_def using assms by (intro sum.cong) simp_all
  ultimately show ?thesis unfolding l by simp
qed

lemma ngram_loop_sum:
  "valid_text D \<Longrightarrow> ngram_loop D logp n i score
     = Inr (score + (\<Sum>k\<in>{i..<length D - n}. logp (ngram_at D k n)))"
proof (induction D logp n i score rule: ngram_loop.induct)
  case (1 decrypted ngram_data ngram_size i score)
  show ?case
  proof (cases "int i < int (length decrypted) - int ngram_size")
    case False
    then have "{i..<length decrypted - ngram_size} = {}" by auto
    then show ?thesis using False by (subst ngram_loop.simps) simp
  next
    case True
    then have le: "i + ngram_size \<le> length decrypted" and lt: "i < length decrypted - ngram_size"
      by simp_all
    have w: "ngram_index (take ngram_size (drop i decrypted)) 0 1 = ngram_at decrypted i ngram_size"
      using le by (rule ngram_window)
    have b: "0 \<le> ngram_at decrypted i ngram_size \<and> ngram_at decrypted i ngram_size < 26 ^ ngram_size"
      using le "1.prems" by (rule ngram_window_bounds)
    have IH: "ngram_loop decrypted ngram_data ngram_size (Suc i)
          (score + ngram_data (ngram_at decrypted i ngram_size))
        = Inr (score + ngram_data (ngram_at decrypted i ngram_size)
               + (\<Sum>k\<in>{Suc i..<length decrypted - ngram_size}.
                    ngram_data (ngram_at decrypted k ngram_size)))"
      using "1.IH"[OF True refl] b w "1.prems" by simp
    have split: "(\<Sum>k\<in>{i..<length decrypted - ngram_size}. ngram_data (ngram_at decrypted k ngram_size))
        = ngram_data (ngram_at decrypted i ngram_size)
          + (\<Sum>k\<in>{Suc i..<length decrypted - ngram_size}. ngram_data (ngram_at decrypted k ngram_size))"
      using lt by (simp add: sum.atLeast_Suc_lessThan)
    have "ngram_loop decrypted ngram_data ngram_size i score
        = ngram_loop decrypted ngram_data ngram_size (Suc i)
            (score + ngram_data (ngram_at decrypted i ngram_size))"
      using True b w by (subst ngram_loop.simps) (simp add: Let_def)
    then show ?thesis unfolding IH split by simp
  qed
qed

lemma ngram_score_spec:
  assumes "valid_text D" "length D \<noteq> n"
  shows "ngram_score D logp n = Inr (S_ngram_leading D logp n)"
proof -
  have "{0..<length D - n} = {..<length D - n}" by auto
  then have "ngram_loop D logp n 0 0 = Inr (\<Sum>i<length D - n. logp (ngram_at D i n))"
    using ngram_loop_sum[OF assms(1), of logp n 0 0] by simp
  moreover have "int (length D) - int n \<noteq> 0" using assms(2) by simp
  moreover have "real_of_int (int (length D) - int n) = real (length D) - real n" by simp
  ultimately show ?thesis unfolding ngram_score_def S_ngram_leading_def by simp
qed

lemma count_matches_filter:
  "cribs_in_text cribs (length txt) \<Longrightarrow>
     count_matches txt cribs n
       = Inr (n + int (length (filter (\<lambda>(posn, crib_char). txt ! posn = crib_char) cribs)))"
proof (induction cribs arbitrary: n)
  case Nil
  then show ?case by simp
next
  case (Cons a cribs)
  obtain posn c where a: "a = (posn, c)" by (cases a)
  have p: "posn < length txt" and rest: "cribs_in_text cribs (length txt)"
    using Cons.prems a by (simp_all add: cribs_in_text_def)
  show ?case unfolding a using p Cons.IH[OF rest] by simp
qed

lemma crib_score_spec:
  assumes "cribs_in_text cribs (length D)"
  shows "crib_score D cribs = Inr (S_crib D cribs)"
  using count_matches_filter[OF assms, of 0]
  by (simp add: crib_score_def S_crib_def)

lemma tally_loop_count:
  "list_all (in_bounds frequencies) D \<Longrightarrow>
     tally_loop D frequencies
       = Inr (map (\<lambda>i. frequencies ! i + int (count_list D (int i))) [0..<length frequencies])"
proof (induction D arbitrary: frequencies)
  case Nil
  then show ?case by (simp add: map_nth)
next
  case (Cons x D)
  let ?f = "frequencies[nat x := frequencies ! nat x + 1]"
  have x: "in_bounds frequencies x" and rest: "list_all (in_bounds frequencies) D"
    using Cons.prems by simp_all
  have "in_bounds ?f = in_bounds frequencies" by (simp add: in_bounds_def fun_eq_iff)
  then have rest': "list_all (in_bounds ?f) D" using rest by simp
  have "tally_loop (x # D) frequencies = tally_loop D ?f" using x by simp
  also have "\<dots> = Inr (map (\<lambda>i. ?f ! i + int (count_list D (int i))) [0..<length ?f])"
    using rest' by (rule Cons.IH)
  also have "map (\<lambda>i. ?f ! i + int (count_list D (int i))) [0..<length ?f]
      = map (\<lambda>i. frequencies ! i + int (count_list (x # D) (int i))) [0..<length frequencies]"
    using x by (auto simp: in_bounds_def nth_list_update)
  finally show ?case .
qed

lemma tally_count:
  assumes "valid_text D"
  shows "tally D 26 = Inr (map (letter_count D) [0..<26])"
proof -
  have "list_all (in_bounds (replicate 26 0)) D"
    using assms by (simp add: valid_text_def in_bounds_def symbol_def list_all_iff)
  then have "tally_loop D (replicate 26 0)
      = Inr (map (\<lambda>i. replicate 26 0 ! i + int (count_list D (int i))) [0..<length (replicate 26 (0::int))])"
    by (rule tally_loop_count)
  moreover have "map (\<lambda>i. replicate 26 0 ! i + int (count_list D (int i))) [0..<length (replicate 26 (0::int))]
      = map (letter_count D) [0..<26]"
    by (simp add: letter_count_def)
  ultimately show ?thesis by (simp add: tally_def)
qed

lemma foldl_add: "foldl (\<lambda>a f. a + g f) s xs = s + sum_list (map g xs)"
  for s :: real
  by (induction xs arbitrary: s) simp_all

lemma foldl_sub_if:
  "foldl (\<lambda>a f. if c f then a - g f else a) s xs
     = s - sum_list (map (\<lambda>f. if c f then g f else 0) xs)"
  for s :: real
  by (induction xs arbitrary: s) simp_all

lemma sum_list_upt_26: "sum_list (map g [0..<26]) = (\<Sum>i<26. g i)"
  for g :: "nat \<Rightarrow> real"
  by (simp add: interv_sum_list_conv_sum_set_nat atLeast0LessThan)

lemma index_of_coincidence_spec:
  assumes "valid_text D" "2 \<le> length D"
  shows "index_of_coincidence D = Inr (IoC D)"
proof -
  have nz: "int (length D) * (int (length D) - 1) \<noteq> 0" using assms(2) by auto
  have div: "real_of_int (int (length D) * (int (length D) - 1))
      = real (length D) * (real (length D) - 1)" by simp
  have "foldl (\<lambda>ioc f. ioc + real_of_int (f * (f - 1))) 0 (map (letter_count D) [0..<26])
      = (\<Sum>i<26. real_of_int (letter_count D i * (letter_count D i - 1)))"
    unfolding foldl_add map_map comp_def sum_list_upt_26 by simp
  then show ?thesis
    unfolding index_of_coincidence_def tally_count[OF assms(1)] IoC_def
    using nz div by (simp add: Let_def)
qed

lemma entropy_spec:
  assumes "valid_text D"
  shows "entropy D = Inr (H_entropy D)"
proof -
  have "foldl (\<lambda>entropy f. if 0 < f
           then entropy - real_of_int f / real (length D) * ln (real_of_int f / real (length D))
           else entropy) 0 (map (letter_count D) [0..<26])
      = H_entropy D"
    unfolding foldl_sub_if map_map comp_def sum_list_upt_26 H_entropy_def by simp
  then show ?thesis
    unfolding entropy_def tally_count[OF assms] Let_def by simp
qed

lemma transform_total:
  assumes "keyword_perm P" "keyword_perm C" "valid_cycleword W" "valid_text M"
  shows "\<exists>D. (if variant then quagmire_encrypt M P C W beaufort
              else quagmire_decrypt M P C W beaufort) = Inr D \<and>
             length D = length M \<and> valid_text D"
proof -
  have len: "length P = 26" "length C = 26"
    using assms(1,2) by (simp_all add: keyword_perm_def)
  show ?thesis
    using decrypt_from_total[OF assms, of beaufort 0 None None]
      encrypt_from_total[OF assms, of beaufort 0 None None] len
    by (simp add: quagmire_decrypt_def quagmire_encrypt_def valid_text_def)
qed

lemma state_score_of_text:
  assumes D: "(if variant then quagmire_encrypt cipher_indices P C W beaufort
               else quagmire_decrypt cipher_indices P C W beaufort) = Inr D"
    and v: "valid_text D" and c: "cribs_in_text cribs (length D)"
    and l: "2 \<le> length D" "length D \<noteq> n" and w: "w_n + w_c + w_i + w_e \<noteq> 0"
  shows "state_score cipher_indices cribs P C W variant beaufort logp n w_n w_c w_i w_e
     = Inr ((w_n * S_ngram_leading D logp n + w_c * S_crib D cribs + w_i * S_ioc D + w_e * S_entropy D)
            / (w_n + w_c + w_i + w_e) / (341 / 100))"
  unfolding state_score_def D
  using w
  by (simp add: ngram_score_spec[OF v l(2)] crib_score_spec[OF c]
      index_of_coincidence_spec[OF v l(1)] entropy_spec[OF v] S_ioc_def S_entropy_def Let_def)

text \<open>
  The sum of the specification has one term more than the sum of the code: for
  \<open>n \<le> L\<close> the last \<open>n\<close>-gram, at the position \<open>L - n\<close>.
\<close>

lemma S_ngram_last:
  assumes "n \<le> length D"
  shows "S_ngram D logp n
     = S_ngram_leading D logp n
       + 26 ^ n * logp (ngram_at D (length D - n) n) / (real (length D) - real n)"
proof -
  have "Suc (length D) - n = Suc (length D - n)" using assms by simp
  then show ?thesis
    unfolding S_ngram_def S_ngram_leading_def
    by (simp add: distrib_left add_divide_distrib)
qed

text \<open>
  C3.  For valid key material, a ciphertext of length \<open>L \<ge> 2\<close> with \<open>L \<noteq> n\<close>, an
  \<open>n\<close>-gram size \<open>n \<le> 6\<close>, cribs at positions inside the text and weights whose sum is
  not zero, \<^verbatim>\<open>state_score\<close> returns
  \<open>(w_n * S + w_c * S_crib + w_i * S_ioc + w_e * S_entropy) / (w_n + w_c + w_i + w_e) / 3.41\<close>
  for the decrypted text \<open>D\<close> (the encryption, for the variant), where \<open>S\<close> is \<open>26 ^ n\<close>
  times the sum of the table entries of the \<open>n\<close>-grams of \<open>D\<close> at the positions
  \<open>0, \<dots>, L - n - 1\<close>, divided by \<open>L - n\<close>: the last \<open>n\<close>-gram of \<open>D\<close>, at the position
  \<open>L - n\<close>, is not counted.  \<open>S_crib\<close> is the fraction of cribs that \<open>D\<close> matches, or 0
  with no cribs.
\<close>

theorem state_score_formula:
  assumes "keyword_perm P" and "keyword_perm C" and "valid_cycleword W"
    and "valid_text cipher_indices" and "cribs_in_text cribs (length cipher_indices)"
    and "2 \<le> length cipher_indices" and "length cipher_indices \<noteq> n" and "n \<le> 6"
    and "w_n + w_c + w_i + w_e \<noteq> 0"
  shows "\<exists>D. (if variant then quagmire_encrypt cipher_indices P C W beaufort
              else quagmire_decrypt cipher_indices P C W beaufort) = Inr D \<and>
     state_score cipher_indices cribs P C W variant beaufort logp n w_n w_c w_i w_e
       = Inr ((w_n * S_ngram_leading D logp n + w_c * S_crib D cribs + w_i * S_ioc D
               + w_e * S_entropy D)
              / (w_n + w_c + w_i + w_e) / (341 / 100))"
proof -
  obtain D where D: "(if variant then quagmire_encrypt cipher_indices P C W beaufort
              else quagmire_decrypt cipher_indices P C W beaufort) = Inr D"
    and len: "length D = length cipher_indices" and v: "valid_text D"
    using transform_total[OF assms(1-4)] by blast
  have "state_score cipher_indices cribs P C W variant beaufort logp n w_n w_c w_i w_e
       = Inr ((w_n * S_ngram_leading D logp n + w_c * S_crib D cribs + w_i * S_ioc D
               + w_e * S_entropy D)
              / (w_n + w_c + w_i + w_e) / (341 / 100))"
    using D v assms(5-7,9) unfolding len[symmetric] by (rule state_score_of_text)
  then show ?thesis using D by blast
qed

theorem state_score_formula_witness:
  "keyword_perm kryptos_alphabet \<and> keyword_perm (straight_alphabet 26) \<and>
   valid_cycleword [10, 14, 12] \<and> valid_text [7, 4, 11, 11, 14] \<and>
   cribs_in_text [(0, 22), (4, 3)] (length [7, 4, 11, 11, 14 :: int]) \<and>
   quagmire_decrypt [7, 4, 11, 11, 14] kryptos_alphabet (straight_alphabet 26) [10, 14, 12] False
     = Inr [22, 9, 25, 17, 10] \<and>
   state_score [7, 4, 11, 11, 14] [(0, 22), (4, 3)] kryptos_alphabet (straight_alphabet 26)
       [10, 14, 12] False False (\<lambda>x. 1 / 676) 2 12 36 1 1
     = Inr ((12 * S_ngram_leading [22, 9, 25, 17, 10] (\<lambda>x. 1 / 676) 2
             + 36 * S_crib [22, 9, 25, 17, 10] [(0, 22), (4, 3)]
             + 1 * S_ioc [22, 9, 25, 17, 10] + 1 * S_entropy [22, 9, 25, 17, 10])
            / (12 + 36 + 1 + 1) / (341 / 100)) \<and>
   S_crib [22, 9, 25, 17, 10] [(0, 22), (4, 3)] = 1 / 2 \<and>
   S_ngram_leading [22, 9, 25, 17, 10] (\<lambda>x. 1 / 676) 2 = 1"
proof -
  have h1: "keyword_perm kryptos_alphabet" by code_simp
  have h2: "keyword_perm (straight_alphabet 26)" by code_simp
  have h3: "valid_cycleword [10, 14, 12]" by code_simp
  have h4: "valid_text [7, 4, 11, 11, 14]" by code_simp
  have h5: "cribs_in_text [(0, 22), (4, 3)] (length [7, 4, 11, 11, 14 :: int])" by code_simp
  have h6: "2 \<le> length [7, 4, 11, 11, 14 :: int]" by simp
  have h7: "length [7, 4, 11, 11, 14 :: int] \<noteq> 2" by simp
  have h8: "(2::nat) \<le> 6" by simp
  have h9: "(12::real) + 36 + 1 + 1 \<noteq> 0" by simp
  have d: "quagmire_decrypt [7, 4, 11, 11, 14] kryptos_alphabet (straight_alphabet 26)
      [10, 14, 12] False = Inr [22, 9, 25, 17, 10]" by code_simp
  have c: "S_crib [22, 9, 25, 17, 10] [(0, 22), (4, 3)] = 1 / 2"
    by (simp add: S_crib_def)
  have n: "S_ngram_leading [22, 9, 25, 17, 10] (\<lambda>x. 1 / 676) 2 = 1"
    by (simp add: S_ngram_leading_def)
  have "state_score [7, 4, 11, 11, 14] [(0, 22), (4, 3)] kryptos_alphabet (straight_alphabet 26)
       [10, 14, 12] False False (\<lambda>x. 1 / 676) 2 12 36 1 1
     = Inr ((12 * S_ngram_leading [22, 9, 25, 17, 10] (\<lambda>x. 1 / 676) 2
             + 36 * S_crib [22, 9, 25, 17, 10] [(0, 22), (4, 3)]
             + 1 * S_ioc [22, 9, 25, 17, 10] + 1 * S_entropy [22, 9, 25, 17, 10])
            / (12 + 36 + 1 + 1) / (341 / 100))"
    using state_score_formula[OF h1 h2 h3 h4 h5 h6 h7 h8 h9, of False False "\<lambda>x. 1 / 676"]
    unfolding d by simp
  then show ?thesis using h1 h2 h3 h4 h5 d c n by blast
qed

text \<open>
  The text HELLO deciphers to WJZRK under the key of the example above.  With a table that
  is 1 at the bigram RK, the last one of WJZRK, and 0 elsewhere, \<^verbatim>\<open>ngram_score\<close> is 0,
  while the sum over all the bigrams of the text gives \<open>676 / 3\<close>; so \<^verbatim>\<open>state_score\<close>
  is not the value of the formula with the sum over all the bigrams.
\<close>

theorem state_score_formula_counterexample:
  "quagmire_decrypt [7, 4, 11, 11, 14] kryptos_alphabet (straight_alphabet 26) [10, 14, 12] False
     = Inr [22, 9, 25, 17, 10] \<and>
   ngram_at [22, 9, 25, 17, 10] 3 2 = 277 \<and>
   ngram_score [22, 9, 25, 17, 10] (\<lambda>x. if x = 277 then 1 else 0) 2 = Inr 0 \<and>
   S_ngram [22, 9, 25, 17, 10] (\<lambda>x. if x = 277 then 1 else 0) 2 = 676 / 3 \<and>
   state_score [7, 4, 11, 11, 14] [(0, 22), (4, 3)] kryptos_alphabet (straight_alphabet 26)
       [10, 14, 12] False False (\<lambda>x. if x = 277 then 1 else 0) 2 12 36 1 1
     \<noteq> Inr ((12 * S_ngram [22, 9, 25, 17, 10] (\<lambda>x. if x = 277 then 1 else 0) 2
             + 36 * S_crib [22, 9, 25, 17, 10] [(0, 22), (4, 3)]
             + 1 * S_ioc [22, 9, 25, 17, 10] + 1 * S_entropy [22, 9, 25, 17, 10])
            / (12 + 36 + 1 + 1) / (341 / 100))"
proof -
  let ?D = "[22, 9, 25, 17, 10] :: int list"
  let ?t = "(\<lambda>x. if x = 277 then 1 else 0) :: int \<Rightarrow> real"
  have d: "quagmire_decrypt [7, 4, 11, 11, 14] kryptos_alphabet (straight_alphabet 26)
      [10, 14, 12] False = Inr ?D" by code_simp
  have g: "ngram_at ?D 0 2 = 256" "ngram_at ?D 1 2 = 659" "ngram_at ?D 2 2 = 467"
    "ngram_at ?D 3 2 = 277"
    by (simp_all add: ngram_at_def lessThan_Suc numeral_2_eq_2)
  have g': "ngram_at ?D (Suc 0) 2 = 659" "ngram_at ?D (Suc (Suc 0)) 2 = 467"
    by (simp_all add: ngram_at_def lessThan_Suc numeral_2_eq_2)
  have l3: "{..<(3::nat)} = {0, 1, 2}" by auto
  have lead: "S_ngram_leading ?D ?t 2 = 0"
    by (simp add: S_ngram_leading_def l3 g g')
  have v: "valid_text ?D" by code_simp
  have ns: "ngram_score ?D ?t 2 = Inr 0"
    using ngram_score_spec[of ?D 2 ?t] v lead by simp
  have e: "length ?D - 2 = 3" by simp
  have last: "S_ngram ?D ?t 2
      = S_ngram_leading ?D ?t 2
        + 26 ^ 2 * ?t (ngram_at ?D (length ?D - 2) 2) / (real (length ?D) - real 2)"
    by (rule S_ngram_last) simp
  have all: "S_ngram ?D ?t 2 = 676 / 3"
    unfolding last e g(4) lead by simp
  have c: "cribs_in_text [(0, 22), (4, 3)] (length ?D)" by code_simp
  have "(if False then quagmire_encrypt [7, 4, 11, 11, 14] kryptos_alphabet (straight_alphabet 26)
            [10, 14, 12] False
         else quagmire_decrypt [7, 4, 11, 11, 14] kryptos_alphabet (straight_alphabet 26)
            [10, 14, 12] False) = Inr ?D"
    using d by simp
  then have st: "state_score [7, 4, 11, 11, 14] [(0, 22), (4, 3)] kryptos_alphabet
       (straight_alphabet 26) [10, 14, 12] False False ?t 2 12 36 1 1
     = Inr ((12 * S_ngram_leading ?D ?t 2 + 36 * S_crib ?D [(0, 22), (4, 3)]
             + 1 * S_ioc ?D + 1 * S_entropy ?D) / (12 + 36 + 1 + 1) / (341 / 100))"
    using v c by (rule state_score_of_text) simp_all
  have "(12 * S_ngram_leading ?D ?t 2 + 36 * S_crib ?D [(0, 22), (4, 3)]
             + 1 * S_ioc ?D + 1 * S_entropy ?D) / (12 + 36 + 1 + 1) / (341 / 100)
      \<noteq> (12 * S_ngram ?D ?t 2 + 36 * S_crib ?D [(0, 22), (4, 3)]
             + 1 * S_ioc ?D + 1 * S_entropy ?D) / (12 + 36 + 1 + 1) / (341 / 100)"
    unfolding lead all by simp
  then show ?thesis using d g(4) ns all unfolding st by simp
qed

subsection \<open>The shotgun hill climber\<close>

lemmas cipher_type_defs =
  VIGENERE_def QUAGMIRE_1_def QUAGMIRE_2_def QUAGMIRE_3_def QUAGMIRE_4_def BEAUFORT_def

lemma restart_begin_flag:
  "restart_begin cfg t st = Some (Inr st') \<Longrightarrow> perturbate_keyword_p st'"
  unfolding restart_begin_def
  by (auto split: if_splits option.splits sum.splits prod.splits)

lemma beaufort_move:
  "choose_keyword_move BEAUFORT must_perturb kpp rm r = (False, r)"
  by (simp add: choose_keyword_move_def)

lemma forced_keyword_move:
  "cipher_type \<noteq> BEAUFORT \<Longrightarrow> choose_keyword_move cipher_type True kpp rm r = (True, r)"
  by (simp add: choose_keyword_move_def)

lemma beaufort_candidate:
  assumes "arg_cipher_type cfg = BEAUFORT"
    and "perturbate_candidate cfg t st = Inr (P, C, W, r)"
  shows "P = current_plaintext_keyword_state st \<and> C = current_ciphertext_keyword_state st"
  using assms(2) unfolding perturbate_candidate_def Let_def assms(1) beaufort_move
  by (auto split: sum.splits prod.splits)

lemma iteration_parts:
  assumes "iteration cfg t st = Inr (st', improved)"
  obtains P C W r must_perturb W' contradictions where
    "perturbate_candidate cfg t st = Inr (P, C, W, r)"
    "constrain_candidate cfg t st P C W = Inr (must_perturb, W', contradictions)"
    "perturbate_keyword_p st' = must_perturb"
    "(current_plaintext_keyword_state st' = P \<and> current_ciphertext_keyword_state st' = C) \<or>
     (current_plaintext_keyword_state st' = current_plaintext_keyword_state st \<and>
      current_ciphertext_keyword_state st' = current_ciphertext_keyword_state st)"
    "best_state st' = best_state st \<or>
     best_state st' = Some (current_plaintext_keyword_state st',
       current_ciphertext_keyword_state st', current_cycleword_state st')"
proof -
  obtain P C W r where cand: "perturbate_candidate cfg t st = Inr (P, C, W, r)"
    using assms unfolding iteration_def
    by (cases "perturbate_candidate cfg t st") auto
  obtain must_perturb W' contradictions where
    con: "constrain_candidate cfg t st P C W = Inr (must_perturb, W', contradictions)"
    using assms cand unfolding iteration_def
    by (cases "constrain_candidate cfg t st P C W") auto
  obtain local_score where sc: "score_of cfg t P C W' = Inr local_score"
    using assms cand con unfolding iteration_def
    by (cases "score_of cfg t P C W'") auto
  define st1 where "st1 = st\<lparr>n_iterations := n_iterations st + 1,
                        perturbate_keyword_p := must_perturb,
                        n_contradictions := contradictions\<rparr>"
  define st2 where "st2 =
                 (if current_score st < local_score then
                    st1\<lparr>current_score := local_score,
                        current_plaintext_keyword_state := P,
                        current_ciphertext_keyword_state := C,
                        current_cycleword_state := W', rng := r\<rparr>
                  else if frand (task_rand_max t) (r 0) < arg_slip_probability cfg then
                    st1\<lparr>n_explore := n_explore st + 1, current_score := local_score,
                        current_plaintext_keyword_state := P,
                        current_ciphertext_keyword_state := C,
                        current_cycleword_state := W', rng := rand_tail 1 r\<rparr>
                  else st1\<lparr>rng := rand_tail 1 r\<rparr>)"
  have res: "st' = (if best_score st2 < current_score st2 then
                st2\<lparr>best_score := current_score st2,
                         best_state := Some (current_plaintext_keyword_state st2,
                                             current_ciphertext_keyword_state st2,
                                             current_cycleword_state st2)\<rparr>
              else st2)"
  proof -
    have "iteration cfg t st = (if best_score st2 < current_score st2 then
                Inr (st2\<lparr>best_score := current_score st2,
                         best_state := Some (current_plaintext_keyword_state st2,
                                             current_ciphertext_keyword_state st2,
                                             current_cycleword_state st2)\<rparr>, True)
              else Inr (st2, False))"
      unfolding st2_def st1_def by (simp add: iteration_def cand con sc Let_def)
    then show ?thesis using assms by (simp split: if_splits)
  qed
  have f2: "perturbate_keyword_p st2 = must_perturb" "best_state st2 = best_state st"
    "(current_plaintext_keyword_state st2 = P \<and> current_ciphertext_keyword_state st2 = C) \<or>
     (current_plaintext_keyword_state st2 = current_plaintext_keyword_state st \<and>
      current_ciphertext_keyword_state st2 = current_ciphertext_keyword_state st)"
    unfolding st2_def st1_def by simp_all
  show ?thesis
  proof (rule that[OF cand con])
    show "perturbate_keyword_p st' = must_perturb" using f2(1) unfolding res by simp
    show "(current_plaintext_keyword_state st' = P \<and> current_ciphertext_keyword_state st' = C) \<or>
     (current_plaintext_keyword_state st' = current_plaintext_keyword_state st \<and>
      current_ciphertext_keyword_state st' = current_ciphertext_keyword_state st)"
      using f2(3) unfolding res by simp
    show "best_state st' = best_state st \<or>
     best_state st' = Some (current_plaintext_keyword_state st',
       current_ciphertext_keyword_state st', current_cycleword_state st')"
      using f2(2) unfolding res by simp
  qed
qed

lemma beaufort_initialise:
  assumes b: "arg_cipher_type cfg = BEAUFORT"
    and i: "initialise_random_state cfg t st = Some (Inr st1)"
  shows "keywords_straight st1 \<and> best_state st1 = best_state st"
proof -
  have nb: "BEAUFORT \<noteq> VIGENERE" "BEAUFORT \<noteq> QUAGMIRE_1" "BEAUFORT \<noteq> QUAGMIRE_2"
    "BEAUFORT \<noteq> QUAGMIRE_3" "BEAUFORT \<noteq> QUAGMIRE_4"
    by (simp_all add: cipher_type_defs)
  have "initialise_random_state cfg t st =
      (case random_cycleword (rng st) (task_cycleword_len t) of
           Inl e \<Rightarrow> Some (Inl e)
         | Inr (W, rng1) \<Rightarrow>
             Some (Inr (st\<lparr>current_plaintext_keyword_state := straight_alphabet 26,
                           current_ciphertext_keyword_state := straight_alphabet 26,
                           current_cycleword_state := W, rng := rng1\<rparr>)))"
    unfolding initialise_random_state_def b using nb by simp
  then show ?thesis
    using i unfolding keywords_straight_def
    by (auto split: sum.splits prod.splits)
qed

lemma restart_begin_cases:
  assumes "restart_begin cfg t st = Some (Inr st')"
  obtains (backtrack) P C W where "best_state st = Some (P, C, W)"
      "current_plaintext_keyword_state st' = P" "current_ciphertext_keyword_state st' = C"
      "best_state st' = best_state st"
    | (fresh) st0 st1 where "initialise_random_state cfg t st0 = Some (Inr st1)"
      "best_state st0 = best_state st"
      "current_plaintext_keyword_state st' = current_plaintext_keyword_state st1"
      "current_ciphertext_keyword_state st' = current_ciphertext_keyword_state st1"
      "best_state st' = best_state st1"
proof (cases "0 < best_score st \<and>
    frand (task_rand_max t) (rng st 0) < arg_backtracking_probability cfg")
  case True
  then obtain P C W where bst: "best_state st = Some (P, C, W)"
    and st': "st' = st\<lparr>n_backtracks := n_backtracks st + 1,
                           current_score := best_score st,
                           current_plaintext_keyword_state := P,
                           current_ciphertext_keyword_state := C,
                           current_cycleword_state := W,
                           rng := rand_tail 1 (rng st),
                           perturbate_keyword_p := True\<rparr>"
    using assms unfolding restart_begin_def
    by (auto split: option.splits prod.splits)
  show ?thesis using bst by (rule backtrack) (simp_all add: st')
next
  case False
  let ?st0 = "st\<lparr>rng := (if 0 < best_score st then rand_tail 1 (rng st) else rng st)\<rparr>"
  from assms False obtain st1 s where
    i: "initialise_random_state cfg t ?st0 = Some (Inr st1)"
    and st': "st' = st1\<lparr>current_score := s, perturbate_keyword_p := True\<rparr>"
    unfolding restart_begin_def
    by (simp split: option.splits sum.splits) blast
  show ?thesis using i by (rule fresh) (simp_all add: st')
qed

lemma beaufort_restart:
  assumes b: "arg_cipher_type cfg = BEAUFORT" and bs: "best_straight st"
    and r: "restart_begin cfg t st = Some (Inr st')"
  shows "keywords_straight st' \<and> best_straight st'"
  using r
proof (cases rule: restart_begin_cases)
  case (backtrack P C W)
  then show ?thesis using bs unfolding keywords_straight_def best_straight_def by simp
next
  case (fresh st0 st1)
  have "keywords_straight st1 \<and> best_state st1 = best_state st0"
    using b fresh(1) by (rule beaufort_initialise)
  then show ?thesis
    using fresh(2-5) bs unfolding keywords_straight_def best_straight_def by simp
qed

lemma beaufort_iteration:
  assumes b: "arg_cipher_type cfg = BEAUFORT"
    and inv: "keywords_straight st" "best_straight st"
    and it: "iteration cfg t st = Inr (st', improved)"
  shows "keywords_straight st' \<and> best_straight st'"
proof -
  obtain P C W r must_perturb W' contradictions where
    cand: "perturbate_candidate cfg t st = Inr (P, C, W, r)"
    and cur: "(current_plaintext_keyword_state st' = P \<and> current_ciphertext_keyword_state st' = C) \<or>
     (current_plaintext_keyword_state st' = current_plaintext_keyword_state st \<and>
      current_ciphertext_keyword_state st' = current_ciphertext_keyword_state st)"
    and best: "best_state st' = best_state st \<or>
     best_state st' = Some (current_plaintext_keyword_state st',
       current_ciphertext_keyword_state st', current_cycleword_state st')"
    using it by (rule iteration_parts)
  have "P = current_plaintext_keyword_state st \<and> C = current_ciphertext_keyword_state st"
    using b cand by (rule beaufort_candidate)
  then have ks: "keywords_straight st'"
    using cur inv(1) unfolding keywords_straight_def by auto
  have "best_straight st'"
    using best inv(2) ks unfolding best_straight_def keywords_straight_def
    by (auto split: option.splits)
  then show ?thesis using ks by simp
qed

lemma beaufort_reached:
  assumes b: "arg_cipher_type cfg = BEAUFORT"
  shows "reached cfg t st \<Longrightarrow> keywords_straight st \<and> best_straight st"
proof (induction rule: reached.induct)
  case (first_restart rng0 st)
  have "best_straight (initial_search_state rng0)"
    by (simp add: best_straight_def initial_search_state_def)
  then show ?case using b first_restart by (intro beaufort_restart)
next
  case (next_restart st st')
  then show ?case using b by (intro beaufort_restart[of cfg st t st']) simp_all
next
  case (next_iteration st st' improved)
  then show ?case using b by (intro beaufort_iteration[of cfg st t st' improved]) simp_all
qed

lemma hill_climb_loop_reached_aux:
  assumes run: "hill_climb_loop cfg0 t0 i0 st0 = Some y0"
  shows "\<forall>st'. reached cfg0 t0 st0 \<longrightarrow> y0 = Inr st' \<longrightarrow> reached cfg0 t0 st'"
proof (rule hill_climb_loop.raw_induct[where
      P = "\<lambda>cfg t i st y. \<forall>st'. reached cfg t st \<longrightarrow> y = Inr st' \<longrightarrow> reached cfg t st'",
      OF _ run])
  fix f cfg t i st y
  assume IH: "\<And>cfg t i st y. f cfg t i st = Some y \<Longrightarrow>
      \<forall>st'. reached cfg t st \<longrightarrow> y = Inr st' \<longrightarrow> reached cfg t st'"
    and eq: "(if int i < arg_n_hill_climbs cfg
      then case iteration cfg t st of Inl e \<Rightarrow> Some (Inl e)
           | Inr (st', improved) \<Rightarrow>
               f cfg t (Suc (if improved \<and> arg_verbose cfg
                      then effective_cycleword_len cfg t else i)) st'
      else Some (Inr st)) = Some y"
  show "\<forall>st'. reached cfg t st \<longrightarrow> y = Inr st' \<longrightarrow> reached cfg t st'"
  proof (intro allI impI)
    fix st'
    assume r: "reached cfg t st" and y: "y = Inr st'"
    show "reached cfg t st'"
    proof (cases "int i < arg_n_hill_climbs cfg")
      case False
      then show ?thesis using eq r y by simp
    next
      case True
      show ?thesis
      proof (cases "iteration cfg t st")
        case (Inl e)
        then show ?thesis using eq True y by simp
      next
        case (Inr p)
        obtain st1 improved where p: "p = (st1, improved)" by (cases p)
        have it: "iteration cfg t st = Inr (st1, improved)" using Inr p by simp
        have r1: "reached cfg t st1"
          using r it by (rule reached.next_iteration)
        have "f cfg t
            (Suc (if improved \<and> arg_verbose cfg then effective_cycleword_len cfg t else i)) st1
            = Some y"
          using eq True it by simp
        then show ?thesis using IH r1 y by blast
      qed
    qed
  qed
qed

lemma hill_climb_loop_reached:
  "hill_climb_loop cfg t i st = Some (Inr st') \<Longrightarrow> reached cfg t st \<Longrightarrow> reached cfg t st'"
  using hill_climb_loop_reached_aux by blast

lemma restart_loop_reached:
  "restart_loop cfg t n st = Some (Inr st') \<Longrightarrow>
   (\<exists>rng0. st = initial_search_state rng0) \<or> reached cfg t st \<Longrightarrow>
   (\<exists>rng0. st' = initial_search_state rng0) \<or> reached cfg t st'"
proof (induction n arbitrary: st)
  case 0
  then show ?case by simp
next
  case (Suc n)
  from Suc.prems(1) obtain st1 st2 where
    rb: "restart_begin cfg t st = Some (Inr st1)"
    and hc: "hill_climb_loop cfg t 0 st1 = Some (Inr st2)"
    and rest: "restart_loop cfg t n st2 = Some (Inr st')"
    by (auto split: option.splits sum.splits)
  have "reached cfg t st1"
    using Suc.prems(2) rb by (auto intro: reached.first_restart reached.next_restart)
  then have "reached cfg t st2" using hc hill_climb_loop_reached by blast
  then show ?case using rest by (intro Suc.IH[of st2]) simp_all
qed

lemma beaufort_result:
  assumes b: "arg_cipher_type cfg = BEAUFORT"
    and run: "quagmire_shotgun_hill_climber cfg t rng0 = Some (Inr (score, decrypted, P, C, W))"
  shows "P = straight_alphabet 26 \<and> C = straight_alphabet 26"
proof -
  from run obtain st where
    rl: "restart_loop cfg t (nat (arg_n_restarts cfg)) (initial_search_state rng0) = Some (Inr st)"
    and best: "best_state st = Some (P, C, W)"
    unfolding quagmire_shotgun_hill_climber_def
    by (auto split: option.splits sum.splits prod.splits)
  have "(\<exists>rng0. st = initial_search_state rng0) \<or> reached cfg t st"
    using rl by (rule restart_loop_reached) blast
  then show ?thesis
  proof
    assume "\<exists>rng0. st = initial_search_state rng0"
    then show ?thesis using best by (auto simp: initial_search_state_def)
  next
    assume "reached cfg t st"
    then have "best_straight st" using beaufort_reached[OF b] by blast
    then show ?thesis using best by (simp add: best_straight_def)
  qed
qed

lemma rand_tail_const: "rand_tail k (\<lambda>n. c) = (\<lambda>n. c)"
  by (simp add: rand_tail_def)

lemma random_keyword_X:
  "random_keyword (\<lambda>n. 2147483647) 1 = Some (Inr (keyword_X, \<lambda>n. 2147483647))"
proof -
  have c: "rand_int 0 26 2147483647 = Inr 23" by (simp add: rand_int_def)
  have "random_keyword_letters (\<lambda>n. 2147483647) [] 1 = Some (Inr ([23], \<lambda>n. 2147483647))"
    by (subst random_keyword_letters.simps, subst random_keyword_letters.simps)
      (simp add: c rand_tail_const)
  moreover have "[23] @ filter (\<lambda>i. i \<notin> set [23]) [0..25] = keyword_X"
    by code_simp
  ultimately show ?thesis by (simp add: random_keyword_def)
qed

lemma random_cycleword_X:
  "random_cycleword (\<lambda>n. 2147483647) 3 = Inr ([23, 23, 23], \<lambda>n. 2147483647)"
proof -
  have c: "rand_int 0 26 2147483647 = Inr 23" by (simp add: rand_int_def)
  have "random_cycleword (\<lambda>n. 2147483647) (Suc (Suc (Suc 0))) = Inr ([23, 23, 23], \<lambda>n. 2147483647)"
    by (simp add: c rand_tail_const)
  then show ?thesis by (simp add: numeral_3_eq_3)
qed

lemma state_score_positive:
  assumes "keyword_perm P" and "keyword_perm C" and "valid_cycleword W"
    and "valid_text cipher_indices" and "cribs_in_text cribs (length cipher_indices)"
    and "2 \<le> length cipher_indices" and "n < length cipher_indices"
    and "\<And>x. 0 \<le> logp x" and "0 \<le> w_n" and "0 \<le> w_c" and "0 < w_i" and "0 \<le> w_e"
  shows "\<exists>s. state_score cipher_indices cribs P C W variant beaufort logp n w_n w_c w_i w_e = Inr s
           \<and> 0 < s"
proof -
  obtain D where D: "(if variant then quagmire_encrypt cipher_indices P C W beaufort
              else quagmire_decrypt cipher_indices P C W beaufort) = Inr D"
    and len: "length D = length cipher_indices" and v: "valid_text D"
    using transform_total[OF assms(1-4)] by blast
  have w: "w_n + w_c + w_i + w_e \<noteq> 0" "0 < w_n + w_c + w_i + w_e"
    using assms(9-12) by simp_all
  have eq: "state_score cipher_indices cribs P C W variant beaufort logp n w_n w_c w_i w_e
     = Inr ((w_n * S_ngram_leading D logp n + w_c * S_crib D cribs + w_i * S_ioc D + w_e * S_entropy D)
            / (w_n + w_c + w_i + w_e) / (341 / 100))"
    using state_score_of_text[OF D v, of cribs n w_n w_c w_i w_e logp] assms(5-7) len w(1)
    by simp
  have "0 \<le> (\<Sum>i<length D - n. logp (ngram_at D i n))"
    by (rule sum_nonneg) (simp add: assms(8))
  moreover have "0 < real (length D) - real n" using assms(7) len by simp
  ultimately have g: "0 \<le> S_ngram_leading D logp n"
    unfolding S_ngram_leading_def by simp
  have c: "0 \<le> S_crib D cribs" by (simp add: S_crib_def)
  have i: "0 < S_ioc D" by (simp add: S_ioc_def)
  have e: "0 < S_entropy D" by (simp add: S_entropy_def)
  have 1: "0 \<le> w_n * S_ngram_leading D logp n" using assms(9) g by simp
  have 2: "0 \<le> w_c * S_crib D cribs" using assms(10) c by simp
  have 3: "0 < w_i * S_ioc D" using assms(11) i by simp
  have 4: "0 \<le> w_e * S_entropy D" using assms(12) e by simp
  have "0 < w_n * S_ngram_leading D logp n + w_c * S_crib D cribs + w_i * S_ioc D + w_e * S_entropy D"
    using 1 2 3 4 by linarith
  then have "0 < (w_n * S_ngram_leading D logp n + w_c * S_crib D cribs + w_i * S_ioc D + w_e * S_entropy D)
            / (w_n + w_c + w_i + w_e) / (341 / 100)"
    using w(2) by simp
  then show ?thesis using eq by simp
qed

lemma example_score_defined:
  assumes "keyword_perm P" "keyword_perm C" "valid_cycleword W"
    and "cfg = quagmire3_config \<or> cfg = beaufort_config"
    and "t = example_task \<or> t = beaufort_task"
  shows "\<exists>s. score_of cfg t P C W = Inr s \<and> 0 < s"
proof -
  have t: "task_cipher_indices t = [7, 4, 11, 11, 14]" "task_cribs t = [(0, 22), (4, 3)]"
    "task_ngram_data t = (\<lambda>x. 1 / 676)"
    using assms(5) by (auto simp: example_task_def beaufort_task_def)
  have c: "nat (arg_ngram_size cfg) = 2" "arg_weight_ngram cfg = 12" "arg_weight_crib cfg = 36"
    "arg_weight_ioc cfg = 1" "arg_weight_entropy cfg = 1"
    using assms(4) by (auto simp: quagmire3_config_def beaufort_config_def initial_config_def)
  have v: "valid_text [7, 4, 11, 11, 14]" by code_simp
  have cr: "cribs_in_text [(0, 22), (4, 3)] (length [7, 4, 11, 11, 14 :: int])" by code_simp
  show ?thesis
    unfolding score_of_def t c
    by (rule state_score_positive[OF assms(1-3) v cr]) simp_all
qed

lemma quagmire3_restart:
  "\<exists>s. restart_begin quagmire3_config example_task (initial_search_state (\<lambda>n. 2147483647))
         = Some (Inr (started keyword_X s))"
proof -
  have k: "keyword_perm keyword_X" by code_simp
  have w: "valid_cycleword [23, 23, 23]" by code_simp
  obtain s where s: "score_of quagmire3_config example_task keyword_X keyword_X [23, 23, 23] = Inr s"
    using example_score_defined[OF k k w, of quagmire3_config example_task] by blast
  have ct: "arg_cipher_type quagmire3_config = QUAGMIRE_3"
    by (simp add: quagmire3_config_def initial_config_def QUAGMIRE_3_def)
  have ne: "QUAGMIRE_3 \<noteq> VIGENERE" "QUAGMIRE_3 \<noteq> QUAGMIRE_1" "QUAGMIRE_3 \<noteq> QUAGMIRE_2"
    by (simp_all add: cipher_type_defs)
  have init: "initialise_random_state quagmire3_config example_task
        (initial_search_state (\<lambda>n. 2147483647))
      = Some (Inr ((initial_search_state (\<lambda>n. 2147483647))\<lparr>
          current_plaintext_keyword_state := keyword_X,
          current_ciphertext_keyword_state := keyword_X,
          current_cycleword_state := [23, 23, 23], rng := \<lambda>n. 2147483647\<rparr>))"
    unfolding initialise_random_state_def ct
    using ne by (simp add: initial_search_state_def example_task_def
        random_keyword_X[unfolded One_nat_def] random_cycleword_X)
  have "restart_begin quagmire3_config example_task (initial_search_state (\<lambda>n. 2147483647))
      = Some (Inr (started keyword_X s))"
    unfolding restart_begin_def
    using init s by (simp add: initial_search_state_def started_def)
  then show ?thesis by blast
qed

lemma iteration_defined:
  assumes "perturbate_candidate cfg t st = Inr (P, C, W, r)"
    and "constrain_candidate cfg t st P C W = Inr (must_perturb, W', contradictions)"
    and "score_of cfg t P C W' = Inr s"
  shows "\<exists>st' improved. iteration cfg t st = Inr (st', improved)"
  unfolding iteration_def assms(1)
  by (auto simp: assms(2,3) Let_def)

lemma quagmire3_candidate:
  "perturbate_candidate quagmire3_config example_task (started keyword_X s)
     = Inr (keyword_W, keyword_W, [23, 23, 23], \<lambda>n. 2147483647)"
proof -
  have ct: "arg_cipher_type quagmire3_config = QUAGMIRE_3"
    by (simp add: quagmire3_config_def initial_config_def QUAGMIRE_3_def)
  have ne: "QUAGMIRE_3 \<noteq> VIGENERE" "QUAGMIRE_3 \<noteq> QUAGMIRE_1" "QUAGMIRE_3 \<noteq> QUAGMIRE_2"
    "QUAGMIRE_3 \<noteq> BEAUFORT"
    by (simp_all add: cipher_type_defs)
  have pk: "perturbate_keyword 2147483647 keyword_X 26 1 2147483647 2147483647 2147483647
      = Inr keyword_W" by code_simp
  show ?thesis
    unfolding perturbate_candidate_def ct
    using ne by (simp add: started_def example_task_def
        choose_keyword_move_def pk[unfolded One_nat_def] rand_tail_const)
qed

lemma quagmire3_constrain:
  "constrain_cycleword (- 1) [7, 4, 11, 11, 14] [(0, 22), (4, 3)] keyword_W keyword_W
      [23, 23, 23] False = Inr (False, [7, 10, 23])"
  by code_simp

lemma quagmire3_iteration:
  "\<exists>st' improved. iteration quagmire3_config example_task (started keyword_X s)
      = Inr (st', improved)"
proof -
  have ct: "arg_cipher_type quagmire3_config = QUAGMIRE_3"
    by (simp add: quagmire3_config_def initial_config_def QUAGMIRE_3_def)
  have ne: "QUAGMIRE_3 \<noteq> VIGENERE" "QUAGMIRE_3 \<noteq> BEAUFORT"
    by (simp_all add: cipher_type_defs)
  have con: "constrain_candidate quagmire3_config example_task (started keyword_X s)
        keyword_W keyword_W [23, 23, 23]
      = Inr (False, [7, 10, 23], 0)"
    unfolding constrain_candidate_def ct
    using ne by (simp add: started_def example_task_def quagmire3_constrain
        quagmire3_config_def initial_config_def)
  have k: "keyword_perm keyword_W" by code_simp
  have w: "valid_cycleword [7, 10, 23]" by code_simp
  obtain s' where "score_of quagmire3_config example_task keyword_W keyword_W [7, 10, 23] = Inr s'"
    using example_score_defined[OF k k w, of quagmire3_config example_task] by blast
  then show ?thesis using quagmire3_candidate con by (rule iteration_defined[rotated 2])
qed

lemma beaufort_example_restart:
  "\<exists>s. 0 < s \<and>
     restart_begin beaufort_config beaufort_task (initial_search_state (\<lambda>n. 2147483647))
       = Some (Inr (started (straight_alphabet 26) s))"
proof -
  have k: "keyword_perm (straight_alphabet 26)" by code_simp
  have w: "valid_cycleword [23, 23, 23]" by code_simp
  obtain s where s: "score_of beaufort_config beaufort_task (straight_alphabet 26)
      (straight_alphabet 26) [23, 23, 23] = Inr s" and pos: "0 < s"
    using example_score_defined[OF k k w, of beaufort_config beaufort_task] by blast
  have ct: "arg_cipher_type beaufort_config = BEAUFORT"
    by (simp add: beaufort_config_def initial_config_def BEAUFORT_def)
  have ne: "BEAUFORT \<noteq> VIGENERE" "BEAUFORT \<noteq> QUAGMIRE_1" "BEAUFORT \<noteq> QUAGMIRE_2"
    "BEAUFORT \<noteq> QUAGMIRE_3" "BEAUFORT \<noteq> QUAGMIRE_4"
    by (simp_all add: cipher_type_defs)
  have init: "initialise_random_state beaufort_config beaufort_task
        (initial_search_state (\<lambda>n. 2147483647))
      = Some (Inr ((initial_search_state (\<lambda>n. 2147483647))\<lparr>
          current_plaintext_keyword_state := straight_alphabet 26,
          current_ciphertext_keyword_state := straight_alphabet 26,
          current_cycleword_state := [23, 23, 23], rng := \<lambda>n. 2147483647\<rparr>))"
    unfolding initialise_random_state_def ct
    using ne by (simp add: initial_search_state_def example_task_def beaufort_task_def
        random_cycleword_X)
  have "restart_begin beaufort_config beaufort_task (initial_search_state (\<lambda>n. 2147483647))
      = Some (Inr (started (straight_alphabet 26) s))"
    unfolding restart_begin_def
    using init s by (simp add: initial_search_state_def started_def)
  then show ?thesis using pos by blast
qed

lemma beaufort_example_iteration:
  assumes "0 < s"
  shows "\<exists>st'. iteration beaufort_config beaufort_task (started (straight_alphabet 26) s)
            = Inr (st', True) \<and>
          best_state st' = Some (straight_alphabet 26, straight_alphabet 26, [23, 23, 23])"
proof -
  have ct: "arg_cipher_type beaufort_config = BEAUFORT"
    by (simp add: beaufort_config_def initial_config_def BEAUFORT_def)
  have pc: "perturbate_cycleword [23, 23, 23] 3 (\<lambda>n. 2147483647)
      = Inr ([23, 23, 23], \<lambda>n. 2147483647)"
    by (simp add: perturbate_cycleword_def rand_int_def in_bounds_def rand_tail_const)
  have ne: "BEAUFORT \<noteq> VIGENERE" by (simp add: cipher_type_defs)
  have cand: "perturbate_candidate beaufort_config beaufort_task (started (straight_alphabet 26) s)
      = Inr (straight_alphabet 26, straight_alphabet 26, [23, 23, 23], \<lambda>n. 2147483647)"
    unfolding perturbate_candidate_def ct beaufort_move
    using ne by (simp add: started_def example_task_def beaufort_task_def pc
        effective_cycleword_len_def ct)
  have con: "constrain_candidate beaufort_config beaufort_task (started (straight_alphabet 26) s)
        (straight_alphabet 26) (straight_alphabet 26) [23, 23, 23]
      = Inr (True, [23, 23, 23], 0)"
    unfolding constrain_candidate_def ct
    by (simp add: started_def)
  have k: "keyword_perm (straight_alphabet 26)" by code_simp
  have w: "valid_cycleword [23, 23, 23]" by code_simp
  obtain s' where sc: "score_of beaufort_config beaufort_task (straight_alphabet 26)
      (straight_alphabet 26) [23, 23, 23] = Inr s'" and pos: "0 < s'"
    using example_score_defined[OF k k w, of beaufort_config beaufort_task] by blast
  show ?thesis
    unfolding iteration_def cand sum.case prod.case con sc
    using assms pos by (simp add: Let_def started_def)
qed

lemma beaufort_example_run:
  "\<exists>score. quagmire_shotgun_hill_climber beaufort_config beaufort_task (\<lambda>n. 2147483647)
     = Some (Inr (score, [20, 23, 16, 16, 13], straight_alphabet 26, straight_alphabet 26,
                  [23, 23, 23]))"
proof -
  obtain s where pos: "0 < s" and rb:
    "restart_begin beaufort_config beaufort_task (initial_search_state (\<lambda>n. 2147483647))
       = Some (Inr (started (straight_alphabet 26) s))"
    using beaufort_example_restart by blast
  obtain st' where it: "iteration beaufort_config beaufort_task (started (straight_alphabet 26) s)
            = Inr (st', True)"
    and best: "best_state st' = Some (straight_alphabet 26, straight_alphabet 26, [23, 23, 23])"
    using beaufort_example_iteration[OF pos] by blast
  have n: "arg_n_hill_climbs beaufort_config = 1" "nat (arg_n_restarts beaufort_config) = Suc 0"
    "\<not> arg_verbose beaufort_config" "\<not> arg_variant beaufort_config"
    by (simp_all add: beaufort_config_def initial_config_def)
  have hc: "hill_climb_loop beaufort_config beaufort_task 0 (started (straight_alphabet 26) s)
      = Some (Inr st')"
    by (subst hill_climb_loop.simps, subst hill_climb_loop.simps) (simp add: n it)
  have rl: "restart_loop beaufort_config beaufort_task (Suc 0)
      (initial_search_state (\<lambda>n. 2147483647)) = Some (Inr st')"
    by (simp add: rb hc)
  have d: "quagmire_decrypt [7, 4, 11, 11, 14] (straight_alphabet 26) (straight_alphabet 26)
      [23, 23, 23] True = Inr [20, 23, 16, 16, 13]" by code_simp
  show ?thesis
    unfolding quagmire_shotgun_hill_climber_def n rl
    by (simp add: best n d example_task_def beaufort_task_def)
qed

text \<open>
  C8.  For the Beaufort cipher kind the climber never perturbs a keyword: the move chosen
  is never a keyword perturbation; at the head of every iteration of every restart both
  keyword states, and the keywords of the best state, are the straight alphabet; the
  candidate of the iteration is the current state with its cycleword changed by
  \<^verbatim>\<open>perturbate_cycleword\<close>, and the keywords are still straight after the iteration; and the
  keywords that the climber returns are the straight alphabet.
\<close>

theorem beaufort_never_perturbs_keyword:
  assumes "arg_cipher_type cfg = BEAUFORT"
  shows "\<not> fst (choose_keyword_move (arg_cipher_type cfg) must_perturb
              keyword_permutation_probability rand_max r) \<and>
    (reached cfg t st \<longrightarrow> keywords_straight st \<and> best_straight st) \<and>
    (reached cfg t st \<longrightarrow> iteration cfg t st = Inr (st', improved) \<longrightarrow>
       (\<exists>W' r'. perturbate_cycleword (current_cycleword_state st) (task_cycleword_len t) (rng st)
                   = Inr (W', r') \<and>
                perturbate_candidate cfg t st
                   = Inr (straight_alphabet 26, straight_alphabet 26, W', r')) \<and>
       keywords_straight st') \<and>
    (quagmire_shotgun_hill_climber cfg t rng0 = Some (Inr (score, decrypted, P, C, W)) \<longrightarrow>
       P = straight_alphabet 26 \<and> C = straight_alphabet 26)"
proof (intro conjI impI)
  show "\<not> fst (choose_keyword_move (arg_cipher_type cfg) must_perturb
              keyword_permutation_probability rand_max r)"
    by (simp add: assms beaufort_move)
next
  assume "reached cfg t st"
  then show "keywords_straight st" using beaufort_reached[OF assms] by blast
next
  assume "reached cfg t st"
  then show "best_straight st" using beaufort_reached[OF assms] by blast
next
  assume r: "reached cfg t st" and it: "iteration cfg t st = Inr (st', improved)"
  have ks: "keywords_straight st" using beaufort_reached[OF assms r] by blast
  obtain P C W r where cand: "perturbate_candidate cfg t st = Inr (P, C, W, r)"
    using it by (rule iteration_parts)
  have ne: "BEAUFORT \<noteq> VIGENERE" by (simp add: cipher_type_defs)
  have "perturbate_candidate cfg t st =
      (case perturbate_cycleword (current_cycleword_state st) (task_cycleword_len t) (rng st) of
         Inl e \<Rightarrow> Inl e
       | Inr (W', r') \<Rightarrow> Inr (current_plaintext_keyword_state st,
                              current_ciphertext_keyword_state st, W', r'))"
    unfolding perturbate_candidate_def assms beaufort_move Let_def
    using ne by (simp add: effective_cycleword_len_def assms)
  then show "\<exists>W' r'. perturbate_cycleword (current_cycleword_state st) (task_cycleword_len t) (rng st)
                   = Inr (W', r') \<and>
                perturbate_candidate cfg t st
                   = Inr (straight_alphabet 26, straight_alphabet 26, W', r')"
    using cand ks unfolding keywords_straight_def
    by (auto split: sum.splits)
next
  assume r: "reached cfg t st" and it: "iteration cfg t st = Inr (st', improved)"
  have "reached cfg t st'" using r it by (rule reached.next_iteration)
  then show "keywords_straight st'" using beaufort_reached[OF assms] by blast
next
  assume run: "quagmire_shotgun_hill_climber cfg t rng0 = Some (Inr (score, decrypted, P, C, W))"
  show "P = straight_alphabet 26" using beaufort_result[OF assms run] by simp
next
  assume run: "quagmire_shotgun_hill_climber cfg t rng0 = Some (Inr (score, decrypted, P, C, W))"
  show "C = straight_alphabet 26" using beaufort_result[OF assms run] by simp
qed

theorem beaufort_never_perturbs_keyword_witness:
  "arg_cipher_type beaufort_config = BEAUFORT \<and>
   (\<exists>st st'. reached beaufort_config beaufort_task st \<and>
      iteration beaufort_config beaufort_task st = Inr (st', True) \<and>
      keywords_straight st \<and> keywords_straight st' \<and>
      perturbate_candidate beaufort_config beaufort_task st
        = Inr (straight_alphabet 26, straight_alphabet 26, [23, 23, 23], \<lambda>n. 2147483647)) \<and>
   (\<exists>score. quagmire_shotgun_hill_climber beaufort_config beaufort_task (\<lambda>n. 2147483647)
      = Some (Inr (score, [20, 23, 16, 16, 13], straight_alphabet 26, straight_alphabet 26,
                   [23, 23, 23])))"
proof -
  have ct: "arg_cipher_type beaufort_config = BEAUFORT"
    by (simp add: beaufort_config_def initial_config_def BEAUFORT_def)
  obtain s where pos: "0 < s" and rb:
    "restart_begin beaufort_config beaufort_task (initial_search_state (\<lambda>n. 2147483647))
       = Some (Inr (started (straight_alphabet 26) s))"
    using beaufort_example_restart by blast
  have re: "reached beaufort_config beaufort_task (started (straight_alphabet 26) s)"
    using rb by (rule reached.first_restart)
  obtain st' where it: "iteration beaufort_config beaufort_task (started (straight_alphabet 26) s)
            = Inr (st', True)"
    using beaufort_example_iteration[OF pos] by blast
  obtain score where run:
    "quagmire_shotgun_hill_climber beaufort_config beaufort_task (\<lambda>n. 2147483647)
     = Some (Inr (score, [20, 23, 16, 16, 13], straight_alphabet 26, straight_alphabet 26,
                  [23, 23, 23]))"
    using beaufort_example_run by blast
  have pc: "perturbate_cycleword [23, 23, 23] 3 (\<lambda>n. 2147483647)
      = Inr ([23, 23, 23], \<lambda>n. 2147483647)"
    by (simp add: perturbate_cycleword_def rand_int_def in_bounds_def rand_tail_const)
  note th = beaufort_never_perturbs_keyword[OF ct, of False 0 0 "\<lambda>n. 0" beaufort_task
      "started (straight_alphabet 26) s" st' True "\<lambda>n. 2147483647" score
      "[20, 23, 16, 16, 13]" "straight_alphabet 26" "straight_alphabet 26" "[23, 23, 23]"]
  have ks: "keywords_straight (started (straight_alphabet 26) s)" using th re by blast
  have ks': "keywords_straight st'" using th re it by blast
  have "perturbate_candidate beaufort_config beaufort_task (started (straight_alphabet 26) s)
        = Inr (straight_alphabet 26, straight_alphabet 26, [23, 23, 23], \<lambda>n. 2147483647)"
    using th re it by (auto simp: started_def pc beaufort_task_def example_task_def)
  then show ?thesis using ct re it ks ks' run by blast
qed

text \<open>
  C7.  The flag \<^verbatim>\<open>perturbate_keyword_p\<close> is true after the head of every restart, so that
  for every cipher kind but Beaufort the first iteration of a restart perturbs a keyword,
  without a call of \<^verbatim>\<open>frand\<close>.  After an iteration, for the Quagmire kinds the flag is
  the result of the call of \<^verbatim>\<open>constrain_cycleword\<close> on the candidate of that iteration
  (true exactly for a contradiction); for Vigenere and Beaufort the iteration leaves it
  unchanged.
\<close>

theorem perturbate_keyword_flag_set_at_restart:
  "(restart_begin cfg t st0 = Some (Inr st1) \<longrightarrow>
      perturbate_keyword_p st1 \<and>
      (arg_cipher_type cfg \<noteq> BEAUFORT \<longrightarrow>
         choose_keyword_move (arg_cipher_type cfg) (perturbate_keyword_p st1)
           (arg_keyword_permutation_probability cfg) (task_rand_max t) (rng st1)
         = (True, rng st1))) \<and>
   (iteration cfg t st = Inr (st', improved) \<longrightarrow>
      (\<exists>P C W r W'. perturbate_candidate cfg t st = Inr (P, C, W, r) \<and>
         (if arg_cipher_type cfg \<noteq> VIGENERE \<and> arg_cipher_type cfg \<noteq> BEAUFORT
          then constrain_cycleword (task_inactive t) (task_cipher_indices t) (task_cribs t)
                 P C W (arg_variant cfg) = Inr (perturbate_keyword_p st', W')
          else perturbate_keyword_p st' = perturbate_keyword_p st)))"
proof (intro conjI impI)
  assume "restart_begin cfg t st0 = Some (Inr st1)"
  then show "perturbate_keyword_p st1" by (rule restart_begin_flag)
next
  assume r: "restart_begin cfg t st0 = Some (Inr st1)" and b: "arg_cipher_type cfg \<noteq> BEAUFORT"
  have "perturbate_keyword_p st1" using r by (rule restart_begin_flag)
  then show "choose_keyword_move (arg_cipher_type cfg) (perturbate_keyword_p st1)
           (arg_keyword_permutation_probability cfg) (task_rand_max t) (rng st1)
         = (True, rng st1)"
    using b by (simp add: forced_keyword_move)
next
  assume it: "iteration cfg t st = Inr (st', improved)"
  obtain P C W r must_perturb W' contradictions where
    cand: "perturbate_candidate cfg t st = Inr (P, C, W, r)"
    and con: "constrain_candidate cfg t st P C W = Inr (must_perturb, W', contradictions)"
    and flag: "perturbate_keyword_p st' = must_perturb"
    using it by (rule iteration_parts)
  have "if arg_cipher_type cfg \<noteq> VIGENERE \<and> arg_cipher_type cfg \<noteq> BEAUFORT
        then constrain_cycleword (task_inactive t) (task_cipher_indices t) (task_cribs t)
               P C W (arg_variant cfg) = Inr (perturbate_keyword_p st', W')
        else perturbate_keyword_p st' = perturbate_keyword_p st"
    using con flag unfolding constrain_candidate_def
    by (auto split: if_splits sum.splits prod.splits)
  then show "\<exists>P C W r W'. perturbate_candidate cfg t st = Inr (P, C, W, r) \<and>
         (if arg_cipher_type cfg \<noteq> VIGENERE \<and> arg_cipher_type cfg \<noteq> BEAUFORT
          then constrain_cycleword (task_inactive t) (task_cipher_indices t) (task_cribs t)
                 P C W (arg_variant cfg) = Inr (perturbate_keyword_p st', W')
          else perturbate_keyword_p st' = perturbate_keyword_p st)"
    using cand by blast
qed

theorem perturbate_keyword_flag_set_at_restart_witness:
  "\<exists>st1 st2 improved.
     restart_begin quagmire3_config example_task (initial_search_state (\<lambda>n. 2147483647))
       = Some (Inr st1) \<and>
     iteration quagmire3_config example_task st1 = Inr (st2, improved) \<and>
     perturbate_keyword_p st1 \<and>
     perturbate_candidate quagmire3_config example_task st1
       = Inr (keyword_W, keyword_W, [23, 23, 23], \<lambda>n. 2147483647) \<and>
     constrain_cycleword (- 1) [7, 4, 11, 11, 14] [(0, 22), (4, 3)] keyword_W keyword_W
       [23, 23, 23] False = Inr (False, [7, 10, 23]) \<and>
     \<not> perturbate_keyword_p st2"
proof -
  obtain s where rb:
    "restart_begin quagmire3_config example_task (initial_search_state (\<lambda>n. 2147483647))
       = Some (Inr (started keyword_X s))"
    using quagmire3_restart by blast
  obtain st2 improved where it:
    "iteration quagmire3_config example_task (started keyword_X s) = Inr (st2, improved)"
    using quagmire3_iteration by blast
  have ct: "arg_cipher_type quagmire3_config \<noteq> VIGENERE"
    "arg_cipher_type quagmire3_config \<noteq> BEAUFORT"
    by (simp_all add: quagmire3_config_def initial_config_def cipher_type_defs)
  note th = perturbate_keyword_flag_set_at_restart[of quagmire3_config example_task
      "initial_search_state (\<lambda>n. 2147483647)" "started keyword_X s"
      "started keyword_X s" st2 improved]
  have f1: "perturbate_keyword_p (started keyword_X s)" using th rb by blast
  obtain W' where "constrain_cycleword (task_inactive example_task)
      (task_cipher_indices example_task) (task_cribs example_task) keyword_W keyword_W
      [23, 23, 23] (arg_variant quagmire3_config) = Inr (perturbate_keyword_p st2, W')"
    using th it ct by (auto simp: quagmire3_candidate)
  then have f2: "\<not> perturbate_keyword_p st2"
    by (simp add: example_task_def quagmire3_config_def initial_config_def quagmire3_constrain)
  show ?thesis
    using rb it f1 f2 quagmire3_candidate quagmire3_constrain by blast
qed

text \<open>
  With the default options (Quagmire III) and the generator that always returns
  \<open>RAND_MAX\<close>, the flag is true after the head of the first restart, which is fresh, and
  the first iteration chooses the keyword perturbation, although the coin
  \<^verbatim>\<open>frand() < keyword_permutation_probability\<close> would fail.
\<close>

theorem perturbate_keyword_flag_counterexample:
  "first_move quagmire3_config example_task (\<lambda>n. 2147483647) = Some (True, True) \<and>
   arg_cipher_type quagmire3_config = QUAGMIRE_3 \<and>
   \<not> frand (task_rand_max example_task) 2147483647
       < arg_keyword_permutation_probability quagmire3_config"
proof -
  obtain s where rb:
    "restart_begin quagmire3_config example_task (initial_search_state (\<lambda>n. 2147483647))
       = Some (Inr (started keyword_X s))"
    using quagmire3_restart by blast
  have ct: "arg_cipher_type quagmire3_config = QUAGMIRE_3"
    by (simp add: quagmire3_config_def initial_config_def QUAGMIRE_3_def)
  have ne: "QUAGMIRE_3 \<noteq> BEAUFORT" by (simp add: cipher_type_defs)
  have "first_move quagmire3_config example_task (\<lambda>n. 2147483647) = Some (True, True)"
    unfolding first_move_def rb ct
    by (simp add: started_def forced_keyword_move[OF ne])
  moreover have "\<not> frand (task_rand_max example_task) 2147483647
       < arg_keyword_permutation_probability quagmire3_config"
    by (simp add: frand_def example_task_def quagmire3_config_def initial_config_def)
  ultimately show ?thesis using ct by simp
qed

subsection \<open>The period estimator\<close>

lemma tied_mean_iocs:
  "mean_iocs tied_text [1..<Suc 6] = Inr [1 / 3, 1 / 3, 2 / 3, 1 / 3, 4 / 15, 2 / 3]"
  by code_simp

lemma tied_vec_mean: "vec_mean [1 / 3, 1 / 3, 2 / 3, 1 / 3, 4 / 15, 2 / 3] = Inr (13 / 30)"
  by (simp add: vec_mean_def)

lemma sqrt_36: "sqrt (1 / 36) = 1 / 6"
  by (rule real_sqrt_unique) (simp_all add: power2_eq_square)

lemma tied_vec_stddev: "vec_stddev [1 / 3, 1 / 3, 2 / 3, 1 / 3, 4 / 15, 2 / 3] = Inr (1 / 6)"
proof -
  have e: "foldl (\<lambda>sumdev v. sumdev + (v - 13 / 30)\<^sup>2) 0 [1 / 3, 1 / 3, 2 / 3, 1 / 3, 4 / 15, 2 / 3 :: real]
      / real (length [1 / 3, 1 / 3, 2 / 3, 1 / 3, 4 / 15, 2 / 3 :: real]) = 1 / 36"
    by (simp add: power2_eq_square)
  show ?thesis
    unfolding vec_stddev_def tied_vec_mean sum.case e sqrt_36 ..
qed

lemma tied_normalise:
  "normalise [1 / 3, 1 / 3, 2 / 3, 1 / 3, 4 / 15, 2 / 3] (13 / 30) (1 / 6)
     = Inr [- (3 / 5), - (3 / 5), 7 / 5, - (3 / 5), - 1, 7 / 5]"
  by (simp add: normalise_def)

lemma tied_select:
  "select_lengths [- (3 / 5), - (3 / 5), 7 / 5, - (3 / 5), - 1, 7 / 5]
      [1 / 3, 1 / 3, 2 / 3, 1 / 3, 4 / 15, 2 / 3] 1 (47 / 1000) 6 [0..<6] 1000000 0
      (replicate 6 None)
   = (1, [Some 3, None, None, None, None, None])"
  by code_simp

text \<open>
  C5.  For the text ABAABCABACBA with \<open>max_p = 6\<close>, \<open>n_sigma_threshold = 1\<close> and
  \<open>ioc_threshold = 0.047\<close>, the mean column indices of coincidence of the periods 1 to 6 are
  \<open>1/3, 1/3, 2/3, 1/3, 4/15, 2/3\<close>, with mean \<open>13/30\<close> and standard deviation \<open>1/6\<close>.  The
  periods 3 and 6 both have the z-score \<open>7/5 > 1\<close> and the average \<open>2/3 > 0.047\<close>, yet
  \<^verbatim>\<open>estimate_cycleword_lengths\<close> returns one length only, the period 3: the period 6 meets
  the condition of acceptance and is not returned.
\<close>

theorem estimate_cycleword_lengths_drops_tied_period:
  "mean_iocs tied_text [1..<Suc 6] = Inr [1 / 3, 1 / 3, 2 / 3, 1 / 3, 4 / 15, 2 / 3] \<and>
   vec_mean [1 / 3, 1 / 3, 2 / 3, 1 / 3, 4 / 15, 2 / 3] = Inr (13 / 30) \<and>
   vec_stddev [1 / 3, 1 / 3, 2 / 3, 1 / 3, 4 / 15, 2 / 3] = Inr (1 / 6) \<and>
   ((2 / 3 - 13 / 30) / (1 / 6) :: real) > 1 \<and> (2 / 3 :: real) > 47 / 1000 \<and>
   estimate_cycleword_lengths tied_text 6 1 (47 / 1000)
     = Inr (1, [Some 3, None, None, None, None, None])"
proof -
  have "estimate_cycleword_lengths tied_text 6 1 (47 / 1000)
     = Inr (1, [Some 3, None, None, None, None, None])"
    unfolding estimate_cycleword_lengths_def tied_mean_iocs sum.case tied_vec_mean tied_vec_stddev
      tied_normalise tied_select ..
  then show ?thesis
    using tied_mean_iocs tied_vec_mean tied_vec_stddev by simp
qed

text \<open>
  Whatever the input, the periods that the selection returns are accepted periods, in the
  strictly decreasing order of their z-scores.
\<close>

lemma select_scan_state:
  "scan_state zs ms ns thr cur J slot0 acc \<Longrightarrow>
   scan_state zs ms ns thr cur (J \<union> set js) slot0 (select_scan zs ms ns thr cur js acc)"
proof (induction js arbitrary: J acc)
  case Nil
  then show ?case by (cases acc) simp
next
  case (Cons j js)
  obtain threshold max_ioc slot where acc: "acc = (threshold, max_ioc, slot)" by (cases acc)
  let ?acc' = "if zs ! j > ns \<and> ms ! j > thr \<and> zs ! j > max_ioc \<and> zs ! j < cur
        then (True, zs ! j, Some (int j + 1)) else (threshold, max_ioc, slot)"
  have "scan_state zs ms ns thr cur (insert j J) slot0 ?acc'"
    using Cons.prems unfolding acc scan_state_def accepted_def
    by (auto split: if_splits)
  then have "scan_state zs ms ns thr cur (insert j J \<union> set js) slot0
      (select_scan zs ms ns thr cur js ?acc')"
    by (rule Cons.IH)
  then show ?case unfolding acc by simp
qed

lemma select_scan_result:
  obtains (none) "select_scan zs ms ns thr cur [0..<m] (False, 0, slot0) = (False, 0, slot0)"
  | (some) j where "j < m" "accepted zs ms ns thr j" "0 < zs ! j" "zs ! j < cur"
      "select_scan zs ms ns thr cur [0..<m] (False, 0, slot0) = (True, zs ! j, Some (int j + 1))"
proof -
  have "scan_state zs ms ns thr cur {} slot0 (False, 0, slot0)"
    by (simp add: scan_state_def)
  then have s: "scan_state zs ms ns thr cur ({} \<union> set [0..<m]) slot0
      (select_scan zs ms ns thr cur [0..<m] (False, 0, slot0))"
    by (rule select_scan_state)
  obtain threshold max_ioc slot where
    r: "select_scan zs ms ns thr cur [0..<m] (False, 0, slot0) = (threshold, max_ioc, slot)"
    by (cases "select_scan zs ms ns thr cur [0..<m] (False, 0, slot0)")
  show ?thesis
  proof (cases threshold)
    case False
    then show ?thesis using s r none by (simp add: scan_state_def)
  next
    case True
    then obtain j where "j < m" "slot = Some (int j + 1)" "accepted zs ms ns thr j"
      "max_ioc = zs ! j" "0 < max_ioc" "max_ioc < cur"
      using s r by (auto simp: scan_state_def)
    then show ?thesis using some[of j] r True by simp
  qed
qed

lemma select_lengths_selected:
  assumes "select_lengths zs ms ns thr m [i..<e] cur n lengths = (n', lengths')"
    and "e \<le> length lengths" and "0 \<le> n" and "nat n \<le> i"
    and "nat n < i \<longrightarrow> cur \<le> 0"
    and "\<forall>k<nat n. cur \<le> z_of zs (lengths ! k)"
    and "selected zs ms ns thr m (nat n) lengths"
  shows "0 \<le> n' \<and> nat n' \<le> max i e \<and> selected zs ms ns thr m (nat n') lengths'"
  using assms
proof (induction "e - i" arbitrary: i cur n lengths)
  case 0
  then have "[i..<e] = []" by simp
  then show ?case using 0 by simp
next
  case (Suc d)
  then have ie: "i < e" and up: "[i..<e] = i # [Suc i..<e]" and d: "d = e - Suc i"
    by (simp_all add: upt_conv_Cons)
  have il: "i < length lengths" using ie Suc.prems(2) by simp
  show ?case
  proof (cases rule: select_scan_result[of zs ms ns thr cur m "lengths ! i"])
    case none
    have run: "select_lengths zs ms ns thr m [Suc i..<e] 0 n (lengths[i := lengths ! i])
        = (n', lengths')"
      using Suc.prems(1) unfolding up by (simp add: none)
    have p6: "\<forall>k<nat n. 0 \<le> z_of zs (lengths ! k)"
    proof (intro allI impI)
      fix k assume k: "k < nat n"
      then obtain j where "lengths ! k = Some (int j + 1)" "0 < zs ! j"
        using Suc.prems(7) unfolding selected_def by blast
      then show "0 \<le> z_of zs (lengths ! k)" by (simp add: z_of_def)
    qed
    have "0 \<le> n' \<and> nat n' \<le> max (Suc i) e \<and> selected zs ms ns thr m (nat n') lengths'"
      using d run
    proof (rule Suc.hyps(1))
      show "e \<le> length (lengths[i := lengths ! i])" using Suc.prems(2) by simp
      show "0 \<le> n" by (rule Suc.prems(3))
      show "nat n \<le> Suc i" using Suc.prems(4) by simp
      show "nat n < Suc i \<longrightarrow> (0::real) \<le> 0" by simp
      show "\<forall>k<nat n. 0 \<le> z_of zs (lengths[i := lengths ! i] ! k)" using p6 by simp
      show "selected zs ms ns thr m (nat n) (lengths[i := lengths ! i])"
        using Suc.prems(7) by simp
    qed
    then show ?thesis using ie by (simp add: max_def)
  next
    case (some j)
    have cur: "0 < cur" using some(3,4) by simp
    then have ni: "nat n = i" using Suc.prems(4,5) by force
    let ?L = "lengths[i := Some (int j + 1)]"
    have run: "select_lengths zs ms ns thr m [Suc i..<e] (zs ! j) (n + 1) ?L = (n', lengths')"
      using Suc.prems(1) unfolding up by (simp add: some(5))
    have n1: "nat (n + 1) = Suc i" using ni Suc.prems(3) by simp
    have zi: "z_of zs (?L ! i) = zs ! j" using il by (simp add: z_of_def)
    have old: "\<And>k. k < i \<Longrightarrow> ?L ! k = lengths ! k" by simp
    have "0 \<le> n' \<and> nat n' \<le> max (Suc i) e \<and> selected zs ms ns thr m (nat n') lengths'"
      using d run
    proof (rule Suc.hyps(1))
      show "e \<le> length ?L" using Suc.prems(2) by simp
      show "0 \<le> n + 1" using Suc.prems(3) by simp
      show "nat (n + 1) \<le> Suc i" using n1 by simp
      show "nat (n + 1) < Suc i \<longrightarrow> zs ! j \<le> 0" using n1 by simp
      show "\<forall>k<nat (n + 1). zs ! j \<le> z_of zs (?L ! k)"
      proof (intro allI impI)
        fix k assume "k < nat (n + 1)"
        then have "k < i \<or> k = i" using n1 by auto
        then show "zs ! j \<le> z_of zs (?L ! k)"
        proof
          assume k: "k < i"
          then have "cur \<le> z_of zs (lengths ! k)" using Suc.prems(6) ni by simp
          then show ?thesis using old[OF k] some(4) by simp
        next
          assume "k = i"
          then show ?thesis using zi by simp
        qed
      qed
      show "selected zs ms ns thr m (nat (n + 1)) ?L"
        unfolding selected_def n1
      proof (intro conjI allI impI)
        fix k assume "k < Suc i"
        then have "k < i \<or> k = i" by auto
        then show "\<exists>j<m. ?L ! k = Some (int j + 1) \<and> accepted zs ms ns thr j \<and> 0 < zs ! j"
        proof
          assume k: "k < i"
          then show ?thesis using Suc.prems(7) old[OF k] ni unfolding selected_def by simp
        next
          assume "k = i"
          then show ?thesis using some(1,2,3) il by auto
        qed
      next
        fix k k' assume kk: "k < Suc i" "k' < k"
        then have k': "k' < i" by simp
        from kk have "k < i \<or> k = i" by auto
        then show "z_of zs (?L ! k) < z_of zs (?L ! k')"
        proof
          assume k: "k < i"
          then show ?thesis
            using Suc.prems(7) old[OF k] old[OF k'] kk(2) ni unfolding selected_def by simp
        next
          assume k: "k = i"
          have "cur \<le> z_of zs (lengths ! k')" using Suc.prems(6) ni k' by simp
          then show ?thesis using k zi old[OF k'] some(4) by simp
        qed
      qed
    qed
    then show ?thesis using ie by (simp add: max_def)
  qed
qed

lemma mean_iocs_length:
  "mean_iocs text_indices ps = Inr ms \<Longrightarrow> length ms = length ps"
  by (induction ps arbitrary: ms) (auto split: sum.splits)

lemma estimate_cycleword_lengths_sound:
  assumes "estimate_cycleword_lengths text_indices m ns thr = Inr (n, lengths)"
  shows "\<exists>ms mu std. mean_iocs text_indices [1..<Suc m] = Inr ms \<and> vec_mean ms = Inr mu \<and>
           vec_stddev ms = Inr std \<and> std \<noteq> 0 \<and> 0 \<le> n \<and> nat n \<le> m \<and>
           (\<forall>k<nat n. \<exists>j<m. lengths ! k = Some (int j + 1) \<and>
               (ms ! j - mu) / std > ns \<and> ms ! j > thr \<and> (ms ! j - mu) / std > 0) \<and>
           (\<forall>k<nat n. \<forall>k'<k. z_of (map (\<lambda>v. (v - mu) / std) ms) (lengths ! k)
                                < z_of (map (\<lambda>v. (v - mu) / std) ms) (lengths ! k'))"
proof -
  from assms obtain ms mu std zs where
    ms: "mean_iocs text_indices [1..<Suc m] = Inr ms" and mu: "vec_mean ms = Inr mu"
    and std: "vec_stddev ms = Inr std" and zs: "normalise ms mu std = Inr zs"
    and sel: "select_lengths zs ms ns thr m [0..<m] 1000000 0 (replicate m None) = (n, lengths)"
    unfolding estimate_cycleword_lengths_def
    by (auto split: sum.splits)
  have s0: "std \<noteq> 0" and zs': "zs = map (\<lambda>v. (v - mu) / std) ms"
    using zs by (auto simp: normalise_def split: if_splits)
  have len: "length ms = m" using mean_iocs_length[OF ms] by simp
  have r: "0 \<le> n \<and> nat n \<le> max 0 m \<and> selected zs ms ns thr m (nat n) lengths"
    using sel by (rule select_lengths_selected) (simp_all add: selected_def)
  have "\<forall>k<nat n. \<exists>j<m. lengths ! k = Some (int j + 1) \<and>
               (ms ! j - mu) / std > ns \<and> ms ! j > thr \<and> (ms ! j - mu) / std > 0"
  proof (intro allI impI)
    fix k assume "k < nat n"
    then obtain j where j: "j < m" "lengths ! k = Some (int j + 1)" "accepted zs ms ns thr j"
      "0 < zs ! j"
      using r unfolding selected_def by blast
    have "zs ! j = (ms ! j - mu) / std" using j(1) len by (simp add: zs')
    then show "\<exists>j<m. lengths ! k = Some (int j + 1) \<and>
               (ms ! j - mu) / std > ns \<and> ms ! j > thr \<and> (ms ! j - mu) / std > 0"
      using j unfolding accepted_def by auto
  qed
  moreover have "\<forall>k<nat n. \<forall>k'<k. z_of zs (lengths ! k) < z_of zs (lengths ! k')"
    using r unfolding selected_def by blast
  ultimately show ?thesis using ms mu std s0 r unfolding zs' by auto
qed

end
